theory Spec2Isabelle
  imports Main "HOL-Library.Sublist" "HOL-Library.Multiset"
begin

section \<open>Configuration and external collaborators\<close>

text \<open>
  The classes \<open>ProxyConfig\<close>, \<open>ChannelConfig\<close> and \<open>ConfigValidator\<close> are imported by
  both source files but are not part of the sources at hand, so everything they provide
  is a parameter of the model.

  An entry of the dictionary \<open>SUPPORTED_PROTOCOLS\<close> is read with
  \<open>info.get("priority", 0)\<close> and \<open>info.get('aliases', [])\<close>: both keys may be
  missing, hence the options. The dictionary itself is an association list in insertion
  order (the order in which Python iterates over it); its keys are distinct.
\<close>

record protocol_info =
  priority :: "int option"
  aliases :: "string list option"

record proxy_config =
  SUPPORTED_PROTOCOLS :: "(string \<times> protocol_info) list"
  is_protocol_enabled :: "string \<Rightarrow> bool"
  MAX_RETRIES :: nat
  RETRY_DELAY :: nat

section \<open>fetch\_configs.py: \<open>fetch_with_retry\<close>\<close>

text \<open>
  One call of \<open>session.get\<close> either raises a \<open>requests.RequestException\<close> (time-out,
  connection error, ...) or returns a response. The outcomes of the successive calls are
  the environment of the function: \<open>get attempt\<close> is what the call made in iteration
  \<open>attempt\<close> of the loop does. Durations are whole seconds; \<open>time.sleep\<close> accepts no
  negative duration, so \<open>RETRY_DELAY\<close> is a natural number.
\<close>

record response =
  status_code :: int
  response_text :: string

datatype outcome = RequestException | Reply response

text \<open>
  \<open>Response.raise_for_status\<close> belongs to the \<open>requests\<close> library: it raises
  \<open>HTTPError\<close> (a \<open>RequestException\<close>) for the client and server error codes, that is
  when \<open>400 <= status_code < 600\<close>, and returns normally for every other code.
\<close>

definition raise_for_status :: "response \<Rightarrow> bool" where
  "raise_for_status r \<longleftrightarrow> 400 \<le> status_code r \<and> status_code r < 600"

text \<open>The body of the \<open>try\<close>: the response when no exception was raised.\<close>

definition try_get :: "outcome \<Rightarrow> response option" where
  "try_get out =
     (case out of
        RequestException \<Rightarrow> None
      | Reply r \<Rightarrow> if raise_for_status r then None else Some r)"

text \<open>What the function does to the outside world, in the order in which it does it.\<close>

datatype event = Attempt nat | Sleep nat

text \<open>
  The loop \<open>for attempt in range(MAX_RETRIES)\<close>, with the local variable \<open>backoff\<close>
  and the events so far.
\<close>

fun retry_loop ::
  "nat \<Rightarrow> (nat \<Rightarrow> outcome) \<Rightarrow> nat list \<Rightarrow> nat \<Rightarrow> event list \<Rightarrow> response option \<times> event list"
where
  "retry_loop d get [] backoff evs = (None, evs)"
| "retry_loop d get (attempt # rest) backoff evs =
     (case try_get (get attempt) of
        Some r \<Rightarrow> (Some r, evs @ [Attempt attempt])
      | None \<Rightarrow>
          (let wait_time = min (d * backoff) 30
           in retry_loop d get rest (backoff * 2) (evs @ [Attempt attempt, Sleep wait_time])))"

definition fetch_with_retry ::
  "proxy_config \<Rightarrow> (nat \<Rightarrow> outcome) \<Rightarrow> response option \<times> event list"
where
  "fetch_with_retry C get = retry_loop (RETRY_DELAY C) get [0..<MAX_RETRIES C] 1 []"

definition attempts :: "event list \<Rightarrow> nat" where
  "attempts evs = length (filter (\<lambda>e. case e of Attempt _ \<Rightarrow> True | Sleep _ \<Rightarrow> False) evs)"

definition sleeps :: "event list \<Rightarrow> nat list" where
  "sleeps evs = concat (map (\<lambda>e. case e of Attempt _ \<Rightarrow> [] | Sleep w \<Rightarrow> [w]) evs)"

text \<open>
  The backoff policy in the words of the specification: \<open>min(cap, d * 2^i)\<close>. The source
  has no such function; it keeps \<open>backoff\<close> in a variable that doubles, and its cap is the
  literal 30.
\<close>

definition nextDelay :: "nat \<Rightarrow> nat \<Rightarrow> nat \<Rightarrow> nat" where
  "nextDelay cap d i = min cap (d * 2 ^ i)"

text \<open>A failed attempt followed by the wait of the policy.\<close>

definition failed_round :: "nat \<Rightarrow> nat \<Rightarrow> event list" where
  "failed_round d i = [Attempt i, Sleep (nextDelay 30 d i)]"

section \<open>config.py: the status check of \<open>fetch_from_channel\<close>\<close>

text \<open>
  \<open>if response.status_code != 200: return []\<close>: one request, no retry, and the channel
  contributes nothing unless the status code is 200.
\<close>

definition channel_status_ok :: "response \<Rightarrow> bool" where
  "channel_status_ok r \<longleftrightarrow> \<not> (status_code r \<noteq> 200)"

section \<open>fetch\_configs.py: \<open>balance_protocols\<close>\<close>

text \<open>
  \<open>proto_map\<close> is a dictionary from each key of \<open>SUPPORTED_PROTOCOLS\<close> to a list,
  filled by the loop
  \<^verbatim>\<open>
  for c in configs:
      for p in proto_map:
          if c.startswith(p):
              proto_map[p].append(c)
              break
  \<close>
  The inner loop, for one record: the record goes to the first key that is a prefix of
  it, and nowhere when there is none. \<open>c.startswith(p)\<close> is \<open>prefix p c\<close>.
\<close>

fun append_to_first_match ::
  "string \<Rightarrow> (string \<times> string list) list \<Rightarrow> (string \<times> string list) list"
where
  "append_to_first_match c [] = []"
| "append_to_first_match c ((p, bucket) # rest) =
     (if prefix p c then (p, bucket @ [c]) # rest
      else (p, bucket) # append_to_first_match c rest)"

definition proto_map ::
  "(string \<times> protocol_info) list \<Rightarrow> string list \<Rightarrow> (string \<times> string list) list"
where
  "proto_map protos configs =
     fold append_to_first_match configs (map (\<lambda>(p, info). (p, [])) protos)"

text \<open>
  \<open>sorted(items, key=lambda x: x[1].get("priority", 0), reverse=True)\<close>. Python's sort
  is stable, also with \<open>reverse=True\<close>: entries of equal priority keep the order of the
  dictionary. That is a stable ascending sort on the negated key.
\<close>

definition priority_key :: "string \<times> protocol_info \<Rightarrow> int" where
  "priority_key x = (case priority (snd x) of None \<Rightarrow> 0 | Some n \<Rightarrow> n)"

definition sorted_protocols ::
  "(string \<times> protocol_info) list \<Rightarrow> (string \<times> protocol_info) list"
where
  "sorted_protocols protos = sort_key (\<lambda>x. - priority_key x) protos"

text \<open>\<open>proto_map.get(proto, [])\<close>\<close>

definition get_bucket :: "(string \<times> string list) list \<Rightarrow> string \<Rightarrow> string list" where
  "get_bucket pm proto = (case map_of pm proto of None \<Rightarrow> [] | Some bucket \<Rightarrow> bucket)"

text \<open>
  The loop over \<open>sorted_protocols\<close>, which extends \<open>final_selection\<close> by a whole
  bucket and breaks once 150 records are there.
\<close>

fun collect ::
  "(string \<times> protocol_info) list \<Rightarrow> (string \<times> string list) list \<Rightarrow> string list \<Rightarrow> string list"
where
  "collect [] pm final_selection = final_selection"
| "collect ((proto, info) # rest) pm final_selection =
     (let configs_of_this_proto = get_bucket pm proto;
          final_selection = final_selection @ configs_of_this_proto
      in if length final_selection \<ge> 150 then final_selection
         else collect rest pm final_selection)"

text \<open>
  The function reads \<open>self.config.SUPPORTED_PROTOCOLS\<close> and nothing else of \<open>self\<close>,
  so the model takes the configuration \<open>C\<close> in its place. \<open>final_selection[:150]\<close> is
  \<open>take 150\<close>.
\<close>

definition balance_protocols :: "proxy_config \<Rightarrow> string list \<Rightarrow> string list" where
  "balance_protocols C configs =
     take 150 (collect (sorted_protocols (SUPPORTED_PROTOCOLS C))
                 (proto_map (SUPPORTED_PROTOCOLS C) configs) [])"

text \<open>
  The protocol of a record, for the selector: the key whose bucket the record is put
  into. A record is available to the selector when it has one.
\<close>

definition bucket_of :: "(string \<times> protocol_info) list \<Rightarrow> string \<Rightarrow> string option" where
  "bucket_of protos c = find (\<lambda>p. prefix p c) (map fst protos)"

definition available :: "(string \<times> protocol_info) list \<Rightarrow> string list \<Rightarrow> string list" where
  "available protos configs = filter (\<lambda>c. bucket_of protos c \<noteq> None) configs"

section \<open>config.py: \<open>rank_and_filter\<close>\<close>

definition priority_list :: "string list" where
  "priority_list = [''vless://'', ''trojan://'', ''hy2://'', ''ss://'', ''vmess://'']"

text \<open>The test of the inner loop, without the membership test.\<close>

definition matches :: "string \<Rightarrow> string \<Rightarrow> bool" where
  "matches p c \<longleftrightarrow> prefix p c \<or> (p = ''hy2://'' \<and> prefix ''hysteria2://'' c)"

text \<open>\<open>for c in configs\<close>, for one \<open>p\<close>.\<close>

fun scan :: "string \<Rightarrow> string list \<Rightarrow> string list \<Rightarrow> string list" where
  "scan p [] sorted_final = sorted_final"
| "scan p (c # configs) sorted_final =
     scan p configs
       (if matches p c \<and> c \<notin> set sorted_final then sorted_final @ [c] else sorted_final)"

text \<open>\<open>for p in priority\<close>. The limit is a Python integer.\<close>

fun rank_loop :: "string list \<Rightarrow> string list \<Rightarrow> int \<Rightarrow> string list \<Rightarrow> string list" where
  "rank_loop [] configs limit sorted_final = sorted_final"
| "rank_loop (p # ps) configs limit sorted_final =
     (let sorted_final = scan p configs sorted_final
      in if int (length sorted_final) \<ge> limit then sorted_final
         else rank_loop ps configs limit sorted_final)"

text \<open>
  The slice \<open>xs[:limit]\<close>: the first \<open>limit\<close> elements, and for a negative \<open>limit\<close>
  all but the last \<open>-limit\<close> elements.
\<close>

definition slice_to :: "int \<Rightarrow> 'a list \<Rightarrow> 'a list" where
  "slice_to limit xs =
     (if limit \<ge> 0 then take (nat limit) xs else take (nat (int (length xs) + limit)) xs)"

definition rank_and_filter :: "string list \<Rightarrow> int \<Rightarrow> string list" where
  "rank_and_filter configs limit = slice_to limit (rank_loop priority_list configs limit [])"

text \<open>
  The rank of a record: the position in \<open>priority\<close> of the first entry that takes the
  record, and the length of \<open>priority\<close> when no entry does. A smaller rank is a higher
  priority.
\<close>

fun first_match :: "string list \<Rightarrow> string \<Rightarrow> nat" where
  "first_match [] c = 0"
| "first_match (p # ps) c = (if matches p c then 0 else Suc (first_match ps c))"

definition rank_of :: "string \<Rightarrow> nat" where
  "rank_of c = first_match priority_list c"

definition ranked :: "string list \<Rightarrow> string set" where
  "ranked configs = {c \<in> set configs. rank_of c < length priority_list}"

section \<open>Strings\<close>

text \<open>
  A Python string is modelled as a list of 8-bit characters, that is, text within
  Latin-1. \<open>str.isspace\<close> holds there for the code points 9 to 13, 28 to 32, 133 and
  160; these are also the characters that \<open>\s\<close> stands for in a pattern.
\<close>

definition isspace :: "char \<Rightarrow> bool" where
  "isspace c \<longleftrightarrow> (of_char c :: nat) \<in> {9, 10, 11, 12, 13, 28, 29, 30, 31, 32, 133, 160}"

text \<open>\<open>s.strip()\<close>\<close>

definition strip :: "string \<Rightarrow> string" where
  "strip s = rev (dropWhile isspace (rev (dropWhile isspace s)))"

text \<open>\<open>s.lower()\<close>, character by character.\<close>

definition lower_char :: "char \<Rightarrow> char" where
  "lower_char c =
     (let n = (of_char c :: nat)
      in if (65 \<le> n \<and> n \<le> 90) \<or> (192 \<le> n \<and> n \<le> 222 \<and> n \<noteq> 215)
         then char_of (n + 32) else c)"

definition lower :: "string \<Rightarrow> string" where
  "lower s = map lower_char s"

text \<open>\<open>s.split('://')[0]\<close>: the text before the first \<open>://\<close>, and all of \<open>s\<close> without one.\<close>

fun before_separator :: "string \<Rightarrow> string" where
  "before_separator [] = []"
| "before_separator (c # cs) =
     (if prefix ''://'' (c # cs) then [] else c # before_separator cs)"

section \<open>The validator\<close>

text \<open>
  The methods of \<open>ConfigValidator\<close> that the fetchers call. Those called inside a
  \<open>try\<close> may raise, which is the result \<open>None\<close>; \<open>decode_base64_text\<close> returns a
  string or \<open>None\<close>.
\<close>

record validator =
  is_base64 :: "string \<Rightarrow> bool"
  decode_base64_text :: "string \<Rightarrow> string option"
  normalize_hysteria2_protocol :: "string \<Rightarrow> string option"
  clean_vmess_config :: "string \<Rightarrow> string option"
  clean_config :: "string \<Rightarrow> string option"
  validate_protocol_config :: "string \<Rightarrow> string \<Rightarrow> bool option"

text \<open>
  Modelled from the spec: \<open>ConfigValidator.normalize_hysteria2_protocol\<close> is not among
  the sources. The specification describes it as the normalisation of the alias spelling,
  \<open>hy2://\<close> to \<open>hysteria2://\<close>, applied before the candidate is matched against the
  protocol registry.
\<close>

definition normalizeAlias :: "string \<Rightarrow> string" where
  "normalizeAlias candidate =
     (if prefix ''hy2://'' candidate then ''hysteria2://'' @ drop 6 candidate else candidate)"

section \<open>fetch\_configs.py: \<open>process_single_config\<close>\<close>

text \<open>
  The loop over \<open>SUPPORTED_PROTOCOLS.items()\<close>. It returns from inside for a disabled
  protocol and for an accepted record; when the validation fails or the record has been
  seen, it goes on with the next protocol, with the \<open>config\<close> that
  \<open>clean_vmess_config\<close> may have replaced. An exception anywhere gives \<open>None\<close>.
  \<open>seen_configs\<close> is only read. The variable \<open>clean_config\<close> of the source is
  \<open>cleaned\<close> here, as the method has the name already.
\<close>

fun match_protocols ::
  "proxy_config \<Rightarrow> validator \<Rightarrow> string set \<Rightarrow> (string \<times> protocol_info) list \<Rightarrow> string
   \<Rightarrow> string option"
where
  "match_protocols C V seen_configs [] config = None"
| "match_protocols C V seen_configs ((protocol, info) # rest) config =
     (if list_ex (\<lambda>alias. prefix alias config)
           (protocol # (case aliases info of None \<Rightarrow> [] | Some as \<Rightarrow> as))
      then
        if \<not> is_protocol_enabled C protocol then None
        else
          (case (if protocol = ''vmess://'' then clean_vmess_config V config else Some config) of
             None \<Rightarrow> None
           | Some config \<Rightarrow>
               (case clean_config V config of
                  None \<Rightarrow> None
                | Some cleaned \<Rightarrow>
                    (case validate_protocol_config V cleaned protocol of
                       None \<Rightarrow> None
                     | Some valid \<Rightarrow>
                         if valid \<and> cleaned \<notin> seen_configs then Some cleaned
                         else match_protocols C V seen_configs rest config)))
      else match_protocols C V seen_configs rest config)"

definition process_single_config ::
  "proxy_config \<Rightarrow> validator \<Rightarrow> string set \<Rightarrow> string \<Rightarrow> string option"
where
  "process_single_config C V seen_configs raw_config =
     (let config = strip raw_config
      in case (if prefix ''hy2://'' config then normalize_hysteria2_protocol V config
               else Some config) of
           None \<Rightarrow> None
         | Some config \<Rightarrow> match_protocols C V seen_configs (SUPPORTED_PROTOCOLS C) config)"

section \<open>fetch\_configs.py: the loop of \<open>fetch_configs_from_source\<close>\<close>

text \<open>
  The state that the loop \<open>for raw in raw_found\<close> changes: the list \<open>configs\<close> of the
  channel (\<open>channel_configs\<close>) and the set \<open>self.seen_configs\<close> of the fetcher
  (\<open>fetcher_seen\<close>). \<open>if processed:\<close> is false for \<open>None\<close> and for the empty string.
\<close>

record accepted =
  channel_configs :: "string list"
  fetcher_seen :: "string set"

definition accept :: "proxy_config \<Rightarrow> validator \<Rightarrow> accepted \<Rightarrow> string \<Rightarrow> accepted" where
  "accept C V st raw =
     (case process_single_config C V (fetcher_seen st) raw of
        None \<Rightarrow> st
      | Some processed \<Rightarrow>
          if processed \<noteq> []
          then \<lparr>channel_configs = channel_configs st @ [processed],
                fetcher_seen = insert processed (fetcher_seen st)\<rparr>
          else st)"

definition accept_all :: "proxy_config \<Rightarrow> validator \<Rightarrow> string list \<Rightarrow> accepted \<Rightarrow> accepted" where
  "accept_all C V raw_found st = foldl (accept C V) st raw_found"

section \<open>The pattern and \<open>re.findall\<close>\<close>

text \<open>
  Both fetchers search with a pattern of the form
  \<^verbatim>\<open>(t1|t2|...):\/\/[^\s<>"\'|]+\<close>
  and the flag \<open>re.IGNORECASE\<close>: one of the scheme tokens in any case, then \<open>://\<close>, then
  as many characters as possible, and at least one, that are neither white space nor one
  of \<open>< > " ' |\<close>. The tokens are tried in the order of the pattern.
\<close>

definition protocol_pattern :: "string list" where
  "protocol_pattern = [''vless'', ''vmess'', ''ss'', ''trojan'', ''hy2'', ''shadowsocks'']"

definition channel_protocol_pattern :: "string list" where
  "channel_protocol_pattern =
     [''vless'', ''vmess'', ''ss'', ''trojan'', ''hy2'', ''hysteria2'', ''tuic'', ''wireguard'']"

definition payload_char :: "char \<Rightarrow> bool" where
  "payload_char c \<longleftrightarrow>
     \<not> isspace c \<and> c \<notin> {CHR ''<'', CHR ''>'', CHR 0x22, CHR 0x27, CHR ''|''}"

text \<open>
  A match of the pattern that starts at the beginning of \<open>s\<close>: the text of group 1, which
  is the scheme token as \<open>s\<close> spells it, and the whole matched text.
\<close>

fun match_here :: "string list \<Rightarrow> string \<Rightarrow> (string \<times> string) option" where
  "match_here [] s = None"
| "match_here (token # tokens) s =
     (let scheme = take (length token) s;
          after = drop (length token) s;
          payload = takeWhile payload_char (drop 3 after)
      in if lower scheme = token \<and> prefix ''://'' after \<and> payload \<noteq> []
         then Some (scheme, scheme @ ''://'' @ payload)
         else match_here tokens s)"

text \<open>
  The scan from left to right for matches that do not overlap: after a match the search
  goes on behind it, so \<open>skip\<close> counts the characters of the last match that are still
  to be passed over.
\<close>

fun scan_matches :: "string list \<Rightarrow> nat \<Rightarrow> string \<Rightarrow> (string \<times> string) list" where
  "scan_matches tokens skip [] = []"
| "scan_matches tokens (Suc skip) (c # cs) = scan_matches tokens skip cs"
| "scan_matches tokens 0 (c # cs) =
     (case match_here tokens (c # cs) of
        None \<Rightarrow> scan_matches tokens 0 cs
      | Some (scheme, whole) \<Rightarrow> (scheme, whole) # scan_matches tokens (length whole - 1) cs)"

text \<open>
  \<open>re.findall\<close> returns, for a pattern with exactly one group, the list of the texts of
  that group, one per match, and not the matched texts. Both patterns have the one group
  around the scheme tokens.
\<close>

definition findall :: "string list \<Rightarrow> string \<Rightarrow> string list" where
  "findall tokens s = map fst (scan_matches tokens 0 s)"

text \<open>The matched texts themselves (\<open>m.group(0)\<close> of each match).\<close>

definition whole_matches :: "string list \<Rightarrow> string \<Rightarrow> string list" where
  "whole_matches tokens s = map snd (scan_matches tokens 0 s)"

section \<open>The outside world of a run\<close>

text \<open>
  \<open>session_get url attempt\<close> is what the request for \<open>url\<close> does at that attempt;
  \<open>message_texts\<close> is the text of the message elements that \<open>BeautifulSoup\<close> finds in
  a page, and \<open>fresh_message_texts\<close> that of the elements which \<open>is_fresh\<close> lets
  through; \<open>list_of_set\<close> is the order in which \<open>list(set(found))\<close> enumerates the
  different elements of \<open>found\<close>, which Python leaves open.
\<close>

record world =
  session_get :: "string \<Rightarrow> nat \<Rightarrow> outcome"
  message_texts :: "string \<Rightarrow> string list"
  fresh_message_texts :: "string \<Rightarrow> string list"
  list_of_set :: "string list \<Rightarrow> string list"

record channel_config =
  url :: string
  enabled :: bool
  is_telegram :: bool

section \<open>fetch\_configs.py: \<open>extract_configs_from_text\<close>\<close>

definition extract_configs_from_text :: "validator \<Rightarrow> world \<Rightarrow> string \<Rightarrow> string list" where
  "extract_configs_from_text V W text0 =
     (let scanned =
            (if is_base64 V (strip text0)
             then (case decode_base64_text V (strip text0) of
                     None \<Rightarrow> text0
                   | Some decoded \<Rightarrow> if decoded \<noteq> [] then decoded else text0)
             else text0);
          found = findall protocol_pattern scanned
      in list_of_set W found)"

section \<open>fetch\_configs.py: \<open>fetch_configs_from_source\<close> and \<open>fetch_all_configs\<close>\<close>

text \<open>\<open>"\n".join(xs)\<close>\<close>

fun join_lines :: "string list \<Rightarrow> string" where
  "join_lines [] = []"
| "join_lines [x] = x"
| "join_lines (x # y # ys) = x @ [CHR 0x0A] @ join_lines (y # ys)"

text \<open>
  The result is the list \<open>configs\<close> of the channel together with the set
  \<open>seen_configs\<close> as the call leaves it. The health statistics of the channel, its
  counters and the log are left out: nothing that the function returns depends on them.
\<close>

definition fetch_configs_from_source ::
  "proxy_config \<Rightarrow> validator \<Rightarrow> world \<Rightarrow> channel_config \<Rightarrow> string set \<Rightarrow> string list \<times> string set"
where
  "fetch_configs_from_source C V W channel seen =
     (if \<not> enabled channel then ([], seen)
      else
        (case fst (fetch_with_retry C (session_get W (url channel))) of
           None \<Rightarrow> ([], seen)
         | Some response \<Rightarrow>
             (let content =
                    (if is_telegram channel
                     then join_lines (filter (\<lambda>m. m \<noteq> []) (message_texts W (response_text response)))
                     else response_text response);
                  raw_found = extract_configs_from_text V W content;
                  st = accept_all C V raw_found \<lparr>channel_configs = [], fetcher_seen = seen\<rparr>
              in (channel_configs st, fetcher_seen st))))"

text \<open>
  The channels one after the other, which is a run without concurrency: each call sees
  the set \<open>seen_configs\<close> as the calls before it left it.
\<close>

fun fetch_sources ::
  "proxy_config \<Rightarrow> validator \<Rightarrow> world \<Rightarrow> channel_config list \<Rightarrow> string set
   \<Rightarrow> string list list \<times> string set"
where
  "fetch_sources C V W [] seen = ([], seen)"
| "fetch_sources C V W (channel # channels) seen =
     (let (res, seen1) = fetch_configs_from_source C V W channel seen;
          (results, seen2) = fetch_sources C V W channels seen1
      in (res # results, seen2))"

text \<open>
  \<open>enabled_channels\<close> is what \<open>get_enabled_channels\<close> of the configuration returns. The
  fetcher starts with an empty \<open>seen_configs\<close>.

  When the merged list is not empty the method calls \<open>self.balance_protocols(all_configs)\<close>.
  The source defines \<open>balance_protocols\<close> in column 0, after the end of the class
  \<open>ConfigFetcher\<close>: it is a function of the module with the parameters \<open>self\<close> and
  \<open>configs\<close>, and the fetcher has no attribute of that name. The call therefore raises
  \<open>AttributeError\<close>, which leaves \<open>fetch_all_configs\<close> and is caught in \<open>main\<close>.
  \<open>balance_protocols\<close> above is that function, applied to a fetcher with the
  configuration \<open>C\<close>.
\<close>

datatype run_error = AttributeError

definition fetch_all_configs ::
  "proxy_config \<Rightarrow> validator \<Rightarrow> world \<Rightarrow> channel_config list \<Rightarrow> run_error + string list"
where
  "fetch_all_configs C V W enabled_channels =
     (let all_configs = concat (fst (fetch_sources C V W enabled_channels {}))
      in if all_configs \<noteq> [] then Inl AttributeError else Inr [])"

section \<open>config.py: \<open>fetch_from_channel\<close> and \<open>get_all\<close>\<close>

text \<open>
  \<open>proto = clean.split('://')[0].lower() + '://'\<close>, and \<open>hysteria2://\<close> for
  \<open>hy2://\<close>.
\<close>

definition protocol_of :: "string \<Rightarrow> string" where
  "protocol_of clean =
     (let proto = lower (before_separator clean) @ ''://''
      in if proto = ''hy2://'' then ''hysteria2://'' else proto)"

text \<open>
  The loop \<open>for raw in found\<close>. It is inside the \<open>try\<close> of the function, whose handler
  is \<open>pass\<close>: an exception ends the loop, and the function returns what it has.
\<close>

fun channel_loop :: "proxy_config \<Rightarrow> validator \<Rightarrow> string list \<Rightarrow> accepted \<Rightarrow> accepted" where
  "channel_loop C V [] st = st"
| "channel_loop C V (raw # found) st =
     (case clean_config V (strip raw) of
        None \<Rightarrow> st
      | Some clean \<Rightarrow>
          (let proto = protocol_of clean
           in if is_protocol_enabled C proto \<and> clean \<notin> fetcher_seen st
              then channel_loop C V found
                     \<lparr>channel_configs = channel_configs st @ [clean],
                      fetcher_seen = insert clean (fetcher_seen st)\<rparr>
              else channel_loop C V found st))"

definition fetch_from_channel ::
  "proxy_config \<Rightarrow> validator \<Rightarrow> world \<Rightarrow> channel_config \<Rightarrow> string set \<Rightarrow> string list \<times> string set"
where
  "fetch_from_channel C V W channel seen =
     (if \<not> enabled channel then ([], seen)
      else
        (case session_get W (url channel) 0 of
           RequestException \<Rightarrow> ([], seen)
         | Reply response \<Rightarrow>
             if status_code response \<noteq> 200 then ([], seen)
             else
               (let content =
                      concat (map (\<lambda>m. m @ [CHR 0x0A]) (fresh_message_texts W (response_text response)));
                    found = findall channel_protocol_pattern content;
                    st = channel_loop C V found \<lparr>channel_configs = [], fetcher_seen = seen\<rparr>
                in (channel_configs st, fetcher_seen st))))"

fun fetch_channels ::
  "proxy_config \<Rightarrow> validator \<Rightarrow> world \<Rightarrow> channel_config list \<Rightarrow> string set
   \<Rightarrow> string list list \<times> string set"
where
  "fetch_channels C V W [] seen = ([], seen)"
| "fetch_channels C V W (channel # channels) seen =
     (let (res, seen1) = fetch_from_channel C V W channel seen;
          (results, seen2) = fetch_channels C V W channels seen1
      in (res # results, seen2))"

text \<open>
  \<open>SPECIFIC_CONFIG_COUNT\<close> and \<open>USE_MAXIMUM_POWER\<close> come from the module
  \<open>user_settings\<close>.
\<close>

definition get_all ::
  "proxy_config \<Rightarrow> validator \<Rightarrow> world \<Rightarrow> channel_config list \<Rightarrow> int \<Rightarrow> bool \<Rightarrow> string list"
where
  "get_all C V W channels SPECIFIC_CONFIG_COUNT USE_MAXIMUM_POWER =
     (let all_configs = concat (fst (fetch_channels C V W channels {}));
          limit = (if \<not> USE_MAXIMUM_POWER then SPECIFIC_CONFIG_COUNT else 150)
      in rank_and_filter all_configs limit)"

section \<open>Notions used to state the properties of the selectors\<close>

text \<open>
  The concatenation of all buckets in the order of \<open>sorted_protocols\<close>, which is what
  the loop of \<open>balance_protocols\<close> builds when it does not break, and the priority of
  the protocol whose bucket a record is put into.
\<close>

definition all_buckets :: "(string \<times> protocol_info) list \<Rightarrow> string list \<Rightarrow> string list" where
  "all_buckets protos configs =
     concat (map (\<lambda>x. filter (\<lambda>c. bucket_of protos c = Some (fst x)) configs)
               (sorted_protocols protos))"

definition priority_of :: "(string \<times> protocol_info) list \<Rightarrow> string \<Rightarrow> int" where
  "priority_of protos c =
     (case bucket_of protos c of
        None \<Rightarrow> 0
      | Some p \<Rightarrow> (case map_of protos p of None \<Rightarrow> 0 | Some info \<Rightarrow> priority_key (p, info)))"

subsection \<open>Concrete inputs\<close>

definition three_tries :: proxy_config where
  "three_tries =
     \<lparr>SUPPORTED_PROTOCOLS = [], is_protocol_enabled = (\<lambda>p. True),
      MAX_RETRIES = 3, RETRY_DELAY = 5\<rparr>"

definition ok_page :: response where
  "ok_page = \<lparr>status_code = 200, response_text = ''vless://a''\<rparr>"

definition not_modified :: response where
  "not_modified = \<lparr>status_code = 304, response_text = []\<rparr>"

definition no_content :: response where
  "no_content = \<lparr>status_code = 204, response_text = []\<rparr>"

definition always_failing :: "nat \<Rightarrow> outcome" where
  "always_failing = (\<lambda>attempt. RequestException)"

definition third_time_lucky :: "nat \<Rightarrow> outcome" where
  "third_time_lucky = (\<lambda>attempt. if attempt < 2 then RequestException else Reply ok_page)"

definition first_not_modified :: "nat \<Rightarrow> outcome" where
  "first_not_modified = (\<lambda>attempt. if attempt = 0 then Reply not_modified else RequestException)"

definition three_protocols :: proxy_config where
  "three_protocols =
     \<lparr>SUPPORTED_PROTOCOLS =
        [(''ss://'', \<lparr>priority = Some 1, aliases = None\<rparr>),
         (''vless://'', \<lparr>priority = Some 3, aliases = None\<rparr>),
         (''trojan://'', \<lparr>priority = Some 2, aliases = None\<rparr>)],
      is_protocol_enabled = (\<lambda>p. True), MAX_RETRIES = 3, RETRY_DELAY = 5\<rparr>"

definition merged_example :: "string list" where
  "merged_example = [''ss://a'', ''vless://b'', ''trojan://c'', ''vless://d'']"

definition plain_validator :: validator where
  "plain_validator =
     \<lparr>is_base64 = (\<lambda>s. False), decode_base64_text = (\<lambda>s. None),
      normalize_hysteria2_protocol = (\<lambda>c. Some (normalizeAlias c)),
      clean_vmess_config = Some, clean_config = Some,
      validate_protocol_config = (\<lambda>c p. Some True)\<rparr>"

definition quiet_world :: world where
  "quiet_world =
     \<lparr>session_get = (\<lambda>u attempt. Reply \<lparr>status_code = 200, response_text = u\<rparr>),
      message_texts = (\<lambda>page. [page]), fresh_message_texts = (\<lambda>page. [page]),
      list_of_set = remdups\<rparr>"

definition feed_world :: world where
  "feed_world =
     \<lparr>session_get = (\<lambda>u attempt. Reply ok_page),
      message_texts = (\<lambda>page. [page]), fresh_message_texts = (\<lambda>page. [page]),
      list_of_set = remdups\<rparr>"

definition two_channels :: "channel_config list" where
  "two_channels =
     [\<lparr>url = ''https://a.example/feed'', enabled = True, is_telegram = False\<rparr>,
      \<lparr>url = ''https://t.me/s/b'', enabled = True, is_telegram = True\<rparr>]"

definition one_seen :: accepted where
  "one_seen = \<lparr>channel_configs = [''vless://a''], fetcher_seen = {''vless://a''}\<rparr>"

definition nothing_seen :: accepted where
  "nothing_seen = \<lparr>channel_configs = [], fetcher_seen = {}\<rparr>"

definition hysteria_protocols :: proxy_config where
  "hysteria_protocols =
     \<lparr>SUPPORTED_PROTOCOLS =
        [(''hysteria2://'', \<lparr>priority = Some 2, aliases = Some [''hy2://'']\<rparr>),
         (''vless://'', \<lparr>priority = Some 2, aliases = Some []\<rparr>)],
      is_protocol_enabled = (\<lambda>p. True), MAX_RETRIES = 3, RETRY_DELAY = 5\<rparr>"

definition tuic_page :: response where
  "tuic_page = \<lparr>status_code = 200, response_text = ''tuic://t vless://v''\<rparr>"

definition tuic_world :: world where
  "tuic_world =
     \<lparr>session_get = (\<lambda>u attempt. Reply tuic_page),
      message_texts = (\<lambda>page. [page]), fresh_message_texts = (\<lambda>page. [page]),
      list_of_set = remdups\<rparr>"

definition shadow_protocols :: proxy_config where
  "shadow_protocols =
     \<lparr>SUPPORTED_PROTOCOLS =
        [(''ss://'', \<lparr>priority = Some 2, aliases = Some [''shadowsocks://'']\<rparr>),
         (''vless://'', \<lparr>priority = Some 2, aliases = Some []\<rparr>)],
      is_protocol_enabled = (\<lambda>p. True), MAX_RETRIES = 3, RETRY_DELAY = 5\<rparr>"

section \<open>Properties of \<open>fetch_with_retry\<close>\<close>

lemma retry_loop_all_fail:
  "\<forall>i < n. try_get (get (k + i)) = None \<Longrightarrow>
   retry_loop d get ([k..<k + n] @ rest) (b * 2 ^ 0) evs =
   retry_loop d get rest (b * 2 ^ n)
     (evs @ concat (map (\<lambda>i. [Attempt (k + i), Sleep (min (d * (b * 2 ^ i)) 30)]) [0..<n]))"
proof (induction n arbitrary: k b evs)
  case 0
  then show ?case by simp
next
  case (Suc n)
  have first: "try_get (get k) = None"
    using Suc.prems by (metis add.right_neutral zero_less_Suc)
  have later: "\<forall>i < n. try_get (get (Suc k + i)) = None"
    using Suc.prems by (metis Suc_less_eq add_Suc_shift)
  have split: "[k..<k + Suc n] = k # [Suc k..<Suc k + n]"
    by (simp add: upt_conv_Cons)
  have shift: "map (\<lambda>i. [Attempt (k + i), Sleep (min (d * (b * 2 ^ i)) 30)]) [0..<Suc n] =
      [Attempt k, Sleep (min (d * b) 30)] #
      map (\<lambda>i. [Attempt (Suc k + i), Sleep (min (d * (b * 2 * 2 ^ i)) 30)]) [0..<n]"
    by (simp add: upt_conv_Cons map_Suc_upt [symmetric] mult.assoc del: upt_Suc)
  show ?case
    using Suc.IH [OF later, of "b * 2" "evs @ [Attempt k, Sleep (min (d * b) 30)]"]
    by (simp only: split shift) (simp add: first Let_def mult.assoc)
qed

lemma fetch_rounds:
  assumes "n \<le> MAX_RETRIES C" and "\<forall>i < n. try_get (get i) = None"
  shows "fetch_with_retry C get =
         retry_loop (RETRY_DELAY C) get [n..<MAX_RETRIES C] (2 ^ n)
           (concat (map (failed_round (RETRY_DELAY C)) [0..<n]))"
proof -
  have range: "[0..<MAX_RETRIES C] = [0..<n] @ [n..<MAX_RETRIES C]"
    using assms(1) upt_add_eq_append [of 0 n "MAX_RETRIES C - n"] by simp
  have fail: "\<forall>i < n. try_get (get (0 + i)) = None"
    using assms(2) by simp
  have "retry_loop (RETRY_DELAY C) get ([0..<0 + n] @ [n..<MAX_RETRIES C]) (1 * 2 ^ 0) [] =
        retry_loop (RETRY_DELAY C) get [n..<MAX_RETRIES C] (1 * 2 ^ n)
          ([] @ concat (map (\<lambda>i. [Attempt (0 + i), Sleep (min (RETRY_DELAY C * (1 * 2 ^ i)) 30)]) [0..<n]))"
    by (rule retry_loop_all_fail [OF fail])
  then show ?thesis
    unfolding fetch_with_retry_def failed_round_def nextDelay_def
    by (simp add: range [symmetric] min.commute)
qed

lemma attempts_append: "attempts (xs @ ys) = attempts xs + attempts ys"
  by (simp add: attempts_def)

lemma sleeps_append: "sleeps (xs @ ys) = sleeps xs @ sleeps ys"
  by (simp add: sleeps_def)

lemma attempts_rounds: "attempts (concat (map (failed_round d) [0..<n])) = n"
  by (induction n) (simp_all add: attempts_append, simp_all add: attempts_def failed_round_def)

lemma sleeps_rounds:
  "sleeps (concat (map (failed_round d) [0..<n])) = map (nextDelay 30 d) [0..<n]"
  by (induction n) (simp_all add: sleeps_append, simp_all add: sleeps_def failed_round_def)

lemma retry_loop_extends: "prefix evs (snd (retry_loop d get xs b evs))"
proof (induction xs arbitrary: b evs)
  case Nil
  then show ?case by simp
next
  case (Cons attempt rest)
  show ?case
  proof (cases "try_get (get attempt)")
    case None
    have "prefix (evs @ [Attempt attempt, Sleep (min (d * b) 30)])
            (snd (retry_loop d get rest (b * 2) (evs @ [Attempt attempt, Sleep (min (d * b) 30)])))"
      by (rule Cons.IH)
    then show ?thesis
      using None by (simp add: Let_def append_prefixD)
  next
    case (Some r)
    then show ?thesis by simp
  qed
qed

section \<open>Properties of \<open>balance_protocols\<close>\<close>

lemma keys_append_to_first_match: "map fst (append_to_first_match c pm) = map fst pm"
  by (induction pm) auto

lemma find_prefix_holds: "find (\<lambda>q. prefix q c) ks = Some p \<Longrightarrow> prefix p c \<and> p \<in> set ks"
  by (induction ks) (auto split: if_splits)

lemma map_of_append_to_first_match:
  "map_of (append_to_first_match c pm) p =
     (if find (\<lambda>q. prefix q c) (map fst pm) = Some p
      then map_option (\<lambda>bucket. bucket @ [c]) (map_of pm p) else map_of pm p)"
proof (induction pm)
  case Nil
  then show ?case by simp
next
  case (Cons kb pm)
  obtain k b where kb: "kb = (k, b)" by (cases kb)
  show ?case
    using Cons.IH by (auto simp: kb dest: find_prefix_holds)
qed

lemma find_key_in_map:
  "find (\<lambda>q. prefix q c) (map fst pm) = Some p \<Longrightarrow> map_of pm p \<noteq> None"
  by (induction pm) (auto split: if_splits)

lemma map_of_fold_append:
  "map_of (fold append_to_first_match cs pm) p =
     map_option (\<lambda>bucket. bucket @ filter (\<lambda>c. find (\<lambda>q. prefix q c) (map fst pm) = Some p) cs)
       (map_of pm p)"
proof (induction cs arbitrary: pm)
  case Nil
  then show ?case by (simp add: option.map_ident)
next
  case (Cons c cs)
  show ?case
    by (simp add: Cons.IH keys_append_to_first_match map_of_append_to_first_match
        option.map_comp comp_def)
qed

lemma keys_initial: "fst \<circ> (\<lambda>(p, info). (p, [])) = fst"
  by (auto simp: fun_eq_iff)

lemma map_of_initial:
  "map_of (map (\<lambda>(p, info). (p, [])) protos) p =
     (if p \<in> fst ` set protos then Some [] else None)"
  by (induction protos) auto

lemma get_bucket_proto_map:
  "get_bucket (proto_map protos configs) p =
     filter (\<lambda>c. bucket_of protos c = Some p) configs"
proof (cases "p \<in> fst ` set protos")
  case True
  then show ?thesis
    by (simp add: get_bucket_def proto_map_def map_of_fold_append keys_initial map_of_initial
        bucket_of_def)
next
  case False
  have "bucket_of protos c \<noteq> Some p" for c
  proof
    assume "bucket_of protos c = Some p"
    then have "p \<in> set (map fst protos)"
      unfolding bucket_of_def by (auto simp: find_Some_iff)
    with False show False by simp
  qed
  with False show ?thesis
    by (simp add: get_bucket_def proto_map_def map_of_fold_append keys_initial map_of_initial)
qed

lemma take_collect:
  "take 150 (collect ps pm acc) = take 150 (acc @ concat (map (\<lambda>x. get_bucket pm (fst x)) ps))"
proof (induction ps arbitrary: acc)
  case Nil
  then show ?case by simp
next
  case (Cons x ps)
  obtain proto info where x: "x = (proto, info)" by (cases x)
  show ?case
  proof (cases "length (acc @ get_bucket pm proto) \<ge> 150")
    case True
    then show ?thesis by (simp add: x Let_def)
  next
    case False
    then show ?thesis
      using Cons.IH [of "acc @ get_bucket pm proto"] by (simp add: x Let_def)
  qed
qed

lemma collect_no_break:
  "length (acc @ concat (map (\<lambda>x. get_bucket pm (fst x)) ps)) < 150 \<Longrightarrow>
   collect ps pm acc = acc @ concat (map (\<lambda>x. get_bucket pm (fst x)) ps)"
proof (induction ps arbitrary: acc)
  case Nil
  then show ?case by simp
next
  case (Cons x ps)
  obtain proto info where x: "x = (proto, info)" by (cases x)
  show ?case
    using Cons.IH [of "acc @ get_bucket pm proto"] Cons.prems by (simp add: x Let_def)
qed

lemma balance_protocols_eq:
  "balance_protocols C configs = take 150 (all_buckets (SUPPORTED_PROTOCOLS C) configs)"
  by (simp add: balance_protocols_def take_collect get_bucket_proto_map all_buckets_def)


lemma priority_of_bucket:
  assumes "distinct (map fst protos)" and "x \<in> set protos" and "bucket_of protos c = Some (fst x)"
  shows "priority_of protos c = priority_key x"
proof -
  have "map_of protos (fst x) = Some (snd x)"
    using assms(1,2) by (cases x) simp
  then show ?thesis
    by (simp add: priority_of_def assms(3))
qed

lemma sorted_wrt_constant:
  "\<forall>c \<in> set xs. g c = v \<Longrightarrow> sorted_wrt (\<lambda>a b. (g b :: int) \<le> g a) xs"
  by (induction xs) auto

lemma sorted_wrt_concat_blocks:
  assumes "sorted_wrt (\<lambda>x y. k y \<le> k x) ps"
    and "\<forall>x \<in> set ps. \<forall>c \<in> set (f x). g c = k x"
  shows "sorted_wrt (\<lambda>a b. (g b :: int) \<le> g a) (concat (map f ps))"
  using assms
proof (induction ps)
  case Nil
  then show ?case by simp
next
  case (Cons x ps)
  have "sorted_wrt (\<lambda>a b. g b \<le> g a) (f x)"
    using Cons.prems(2) by (intro sorted_wrt_constant [of _ _ "k x"]) simp
  with Cons show ?case
    by (auto simp: sorted_wrt_append)
qed

lemma sorted_protocols_descending:
  "sorted_wrt (\<lambda>x y. priority_key y \<le> priority_key x) (sorted_protocols protos)"
proof -
  have "sorted (map (\<lambda>x. - priority_key x) (sorted_protocols protos))"
    unfolding sorted_protocols_def by (rule sorted_sort_key)
  then show ?thesis
    by (simp add: sorted_map)
qed

lemma set_sorted_protocols: "set (sorted_protocols protos) = set protos"
  by (simp add: sorted_protocols_def)

lemma all_buckets_descending:
  assumes "distinct (map fst protos)"
  shows "sorted_wrt (\<lambda>a b. priority_of protos b \<le> priority_of protos a) (all_buckets protos configs)"
  unfolding all_buckets_def
proof (rule sorted_wrt_concat_blocks [OF sorted_protocols_descending])
  show "\<forall>x \<in> set (sorted_protocols protos).
          \<forall>c \<in> set (filter (\<lambda>c. bucket_of protos c = Some (fst x)) configs).
            priority_of protos c = priority_key x"
    using priority_of_bucket [OF assms] by (simp add: set_sorted_protocols)
qed

lemma descending_order_of_positions:
  assumes "sorted_wrt (\<lambda>a b. (g b :: int) \<le> g a) xs"
    and "i < length xs" and "j < length xs" and "g (xs ! j) < g (xs ! i)"
  shows "i < j"
proof (rule ccontr)
  assume "\<not> i < j"
  then have "j < i \<or> j = i" by auto
  then show False
  proof
    assume "j < i"
    then have "g (xs ! i) \<le> g (xs ! j)"
      using assms(1,2) by (simp add: sorted_wrt_iff_nth_less)
    with assms(4) show False by simp
  next
    assume "j = i"
    with assms(4) show False by simp
  qed
qed

lemma filter_take_all:
  assumes "\<forall>i < length xs. P (xs ! i) \<longrightarrow> i < n"
  shows "filter P (take n xs) = filter P xs"
proof -
  have "filter P (drop n xs) = []"
  proof -
    have "\<not> P y" if "y \<in> set (drop n xs)" for y
    proof -
      from that obtain i where "i < length (drop n xs)" and "drop n xs ! i = y"
        by (auto simp: in_set_conv_nth)
      then have "n + i < length xs" and "xs ! (n + i) = y"
        by auto
      with assms show ?thesis by force
    qed
    then show ?thesis by (simp add: filter_empty_conv)
  qed
  then have "filter P xs = filter P (take n xs)"
    by (metis append_Nil2 append_take_drop_id filter_append)
  then show ?thesis by simp
qed

lemma filter_concat_buckets:
  assumes "distinct ks"
  shows "filter (\<lambda>c. b c = Some A) (concat (map (\<lambda>p. filter (\<lambda>c. b c = Some p) cs) ks)) =
         (if A \<in> set ks then filter (\<lambda>c. b c = Some A) cs else [])"
  using assms
proof (induction ks)
  case Nil
  then show ?case by simp
next
  case (Cons k ks)
  have other: "filter (\<lambda>c. b c = Some A) (filter (\<lambda>c. b c = Some k) cs) = []" if "k \<noteq> A"
    using that by (auto simp: filter_empty_conv)
  have same: "filter (\<lambda>c. b c = Some A) (filter (\<lambda>c. b c = Some A) cs) = filter (\<lambda>c. b c = Some A) cs"
    by simp
  show ?case
  proof (cases "k = A")
    case True
    then show ?thesis using Cons by (simp add: same)
  next
    case False
    then show ?thesis using Cons by (simp add: other)
  qed
qed

lemma distinct_sorted_keys:
  "distinct (map fst protos) \<Longrightarrow> distinct (map fst (sorted_protocols protos))"
  by (metis distinct_map distinct_sort set_sort sorted_protocols_def)

lemma filter_all_buckets:
  assumes "distinct (map fst protos)" and "A \<in> fst ` set protos"
  shows "filter (\<lambda>c. bucket_of protos c = Some A) (all_buckets protos configs) =
         filter (\<lambda>c. bucket_of protos c = Some A) configs"
proof -
  have "all_buckets protos configs =
        concat (map (\<lambda>p. filter (\<lambda>c. bucket_of protos c = Some p) configs)
                  (map fst (sorted_protocols protos)))"
    by (simp add: all_buckets_def comp_def)
  moreover have "A \<in> set (map fst (sorted_protocols protos))"
    using assms(2) by (simp add: set_sorted_protocols)
  ultimately show ?thesis
    using filter_concat_buckets [OF distinct_sorted_keys [OF assms(1)], of "bucket_of protos" A configs]
    by simp
qed

section \<open>Properties of \<open>rank_and_filter\<close>\<close>

lemma scan_appends:
  "\<exists>ys. scan p cs sf = sf @ ys \<and> set ys = {c \<in> set cs. matches p c} - set sf
        \<and> (distinct sf \<longrightarrow> distinct (sf @ ys))"
proof (induction cs arbitrary: sf)
  case Nil
  then show ?case by simp
next
  case (Cons c cs)
  show ?case
  proof (cases "matches p c \<and> c \<notin> set sf")
    case True
    obtain ys where ys: "scan p cs (sf @ [c]) = (sf @ [c]) @ ys"
      "set ys = {c \<in> set cs. matches p c} - set (sf @ [c])"
      "distinct (sf @ [c]) \<longrightarrow> distinct ((sf @ [c]) @ ys)"
      using Cons.IH [of "sf @ [c]"] by blast
    have "scan p (c # cs) sf = sf @ (c # ys)"
      using True ys(1) by simp
    moreover have "set (c # ys) = {x \<in> set (c # cs). matches p x} - set sf"
      using True ys(2) by auto
    moreover have "distinct sf \<longrightarrow> distinct (sf @ (c # ys))"
      using True ys(3) by auto
    ultimately show ?thesis by blast
  next
    case False
    obtain ys where ys: "scan p cs sf = sf @ ys"
      "set ys = {c \<in> set cs. matches p c} - set sf"
      "distinct sf \<longrightarrow> distinct (sf @ ys)"
      using Cons.IH [of sf] by blast
    have "scan p (c # cs) sf = sf @ ys"
      using False ys(1) by auto
    moreover have "set ys = {x \<in> set (c # cs). matches p x} - set sf"
      using False ys(2) by auto
    ultimately show ?thesis using ys(3) by blast
  qed
qed

lemma set_scan: "set (scan p cs sf) = set sf \<union> {c \<in> set cs. matches p c}"
proof -
  obtain ys where "scan p cs sf = sf @ ys" and "set ys = {c \<in> set cs. matches p c} - set sf"
    using scan_appends [of p cs sf] by blast
  then have "set (scan p cs sf) = set sf \<union> ({c \<in> set cs. matches p c} - set sf)"
    by simp
  then show ?thesis
    by simp
qed

lemma distinct_scan: "distinct sf \<Longrightarrow> distinct (scan p cs sf)"
proof -
  assume d: "distinct sf"
  obtain ys where "scan p cs sf = sf @ ys" and "distinct sf \<longrightarrow> distinct (sf @ ys)"
    using scan_appends [of p cs sf] by blast
  with d show ?thesis by simp
qed

lemma prefix_scan: "prefix sf (scan p cs sf)"
proof -
  obtain ys where "scan p cs sf = sf @ ys"
    using scan_appends [of p cs sf] by blast
  then show ?thesis by simp
qed

lemma prefix_rank_loop: "prefix sf (rank_loop ps cs limit sf)"
proof (induction ps arbitrary: sf)
  case Nil
  then show ?case by simp
next
  case (Cons p ps)
  have "prefix sf (scan p cs sf)" by (rule prefix_scan)
  moreover have "prefix (scan p cs sf) (rank_loop ps cs limit (scan p cs sf))" by (rule Cons.IH)
  ultimately show ?case
    by (auto simp: Let_def intro: prefix_order.trans)
qed

lemma distinct_rank_loop: "distinct sf \<Longrightarrow> distinct (rank_loop ps cs limit sf)"
proof (induction ps arbitrary: sf)
  case Nil
  then show ?case by simp
next
  case (Cons p ps)
  then show ?case
    by (auto simp: Let_def distinct_scan)
qed

lemma set_rank_loop_subset:
  "set (rank_loop ps cs limit sf) \<subseteq> set sf \<union> {c \<in> set cs. \<exists>p \<in> set ps. matches p c}"
proof (induction ps arbitrary: sf)
  case Nil
  then show ?case by simp
next
  case (Cons p ps)
  have "set (rank_loop ps cs limit (scan p cs sf)) \<subseteq>
        set (scan p cs sf) \<union> {c \<in> set cs. \<exists>p \<in> set ps. matches p c}"
    by (rule Cons.IH)
  then show ?case
    by (auto simp: Let_def set_scan)
qed

lemma set_rank_loop_all:
  assumes "distinct sf" and "finite S" and "set sf \<subseteq> S"
    and "{c \<in> set cs. \<exists>p \<in> set ps. matches p c} \<subseteq> S"
    and "int (card S) < limit"
  shows "set (rank_loop ps cs limit sf) = set sf \<union> {c \<in> set cs. \<exists>p \<in> set ps. matches p c}"
  using assms
proof (induction ps arbitrary: sf)
  case Nil
  then show ?case by simp
next
  case (Cons p ps)
  let ?sf = "scan p cs sf"
  have d: "distinct ?sf"
    using Cons.prems(1) by (rule distinct_scan)
  have sub: "set ?sf \<subseteq> S"
    using Cons.prems(3,4) by (auto simp: set_scan)
  have "length ?sf = card (set ?sf)"
    using d by (simp add: distinct_card)
  also have "\<dots> \<le> card S"
    using sub Cons.prems(2) by (rule card_mono [rotated])
  finally have small: "\<not> int (length ?sf) \<ge> limit"
    using Cons.prems(5) by simp
  have rest: "{c \<in> set cs. \<exists>p \<in> set ps. matches p c} \<subseteq> S"
    using Cons.prems(4) by auto
  have "set (rank_loop ps cs limit ?sf) = set ?sf \<union> {c \<in> set cs. \<exists>p \<in> set ps. matches p c}"
    using Cons.IH [OF d Cons.prems(2) sub rest Cons.prems(5)] .
  then show ?case
    using small by (auto simp: Let_def set_scan)
qed

lemma prefix_vless: "prefix ''vless://'' c \<Longrightarrow> take 2 c = ''vl''"
  by (auto simp: prefix_def)
lemma prefix_trojan: "prefix ''trojan://'' c \<Longrightarrow> take 2 c = ''tr''"
  by (auto simp: prefix_def)
lemma prefix_hy2: "prefix ''hy2://'' c \<Longrightarrow> take 2 c = ''hy''"
  by (auto simp: prefix_def)
lemma prefix_hysteria2: "prefix ''hysteria2://'' c \<Longrightarrow> take 2 c = ''hy''"
  by (auto simp: prefix_def)
lemma prefix_ss: "prefix ''ss://'' c \<Longrightarrow> take 2 c = ''ss''"
  by (auto simp: prefix_def)
lemma prefix_vmess: "prefix ''vmess://'' c \<Longrightarrow> take 2 c = ''vm''"
  by (auto simp: prefix_def)


lemma matches_take2:
  assumes "p \<in> set priority_list" and "matches p c"
  shows "take 2 c = take 2 p"
proof -
  consider "p = ''vless://''" | "p = ''trojan://''" | "p = ''hy2://''" | "p = ''ss://''" | "p = ''vmess://''"
    using assms(1) by (auto simp: priority_list_def)
  then show ?thesis
  proof cases
    case 1
    then show ?thesis using assms(2) prefix_vless [of c] by (simp add: matches_def)
  next
    case 2
    then show ?thesis using assms(2) prefix_trojan [of c] by (simp add: matches_def)
  next
    case 3
    then show ?thesis using assms(2) prefix_hy2 [of c] prefix_hysteria2 [of c]
      by (auto simp: matches_def)
  next
    case 4
    then show ?thesis using assms(2) prefix_ss [of c] by (simp add: matches_def)
  next
    case 5
    then show ?thesis using assms(2) prefix_vmess [of c] by (simp add: matches_def)
  qed
qed

lemma priority_list_take2:
  "p \<in> set priority_list \<Longrightarrow> q \<in> set priority_list \<Longrightarrow> take 2 p = take 2 q \<Longrightarrow> p = q"
  by (auto simp: priority_list_def)

lemma matches_exclusive:
  assumes "p \<in> set priority_list" and "q \<in> set priority_list" and "matches p c" and "matches q c"
  shows "p = q"
proof -
  have "take 2 p = take 2 q"
    using matches_take2 [OF assms(1,3)] matches_take2 [OF assms(2,4)] by simp
  then show ?thesis
    using assms(1,2) by (rule priority_list_take2 [rotated 2])
qed

lemma first_match_le: "first_match ps c \<le> length ps"
  by (induction ps) auto

lemma first_match_matches:
  "first_match ps c < length ps \<Longrightarrow> matches (ps ! first_match ps c) c"
  by (induction ps) auto

lemma first_match_eq:
  "i < length ps \<Longrightarrow> matches (ps ! i) c \<Longrightarrow> \<forall>j < i. \<not> matches (ps ! j) c \<Longrightarrow> first_match ps c = i"
proof (induction ps arbitrary: i)
  case Nil
  then show ?case by simp
next
  case (Cons p ps)
  show ?case
  proof (cases i)
    case 0
    with Cons.prems show ?thesis by simp
  next
    case (Suc k)
    have "\<not> matches p c"
      using Cons.prems(3) Suc by auto
    moreover have "first_match ps c = k"
    proof (rule Cons.IH)
      show "k < length ps" using Cons.prems(1) Suc by simp
      show "matches (ps ! k) c" using Cons.prems(2) Suc by simp
      show "\<forall>j < k. \<not> matches (ps ! j) c"
        using Cons.prems(3) Suc by auto
    qed
    ultimately show ?thesis using Suc by simp
  qed
qed

lemma first_match_lt_iff: "first_match ps c < length ps \<longleftrightarrow> (\<exists>p \<in> set ps. matches p c)"
  by (induction ps) auto

lemma rank_of_position:
  assumes "i < length priority_list" and "matches (priority_list ! i) c"
  shows "rank_of c = i"
  unfolding rank_of_def
proof (rule first_match_eq [OF assms])
  show "\<forall>j < i. \<not> matches (priority_list ! j) c"
  proof (intro allI impI notI)
    fix j assume "j < i" and "matches (priority_list ! j) c"
    have "priority_list ! j = priority_list ! i"
      using matches_exclusive [of "priority_list ! j" "priority_list ! i" c]
        \<open>j < i\<close> assms \<open>matches (priority_list ! j) c\<close> by simp
    moreover have "distinct priority_list"
      by (simp add: priority_list_def)
    ultimately have "j = i"
      using \<open>j < i\<close> assms(1) by (simp add: nth_eq_iff_index_eq)
    with \<open>j < i\<close> show False by simp
  qed
qed

lemma sorted_wrt_same:
  fixes g :: "string \<Rightarrow> nat"
  shows "\<forall>y \<in> set ys. g y = n \<Longrightarrow> sorted_wrt (\<lambda>a b. g a \<le> g b) ys"
  by (induction ys) simp_all

lemma rank_loop_invariant:
  fixes g :: "string \<Rightarrow> nat"
  assumes "\<forall>i < length ps. \<forall>c. matches (ps ! i) c \<longrightarrow> g c = n + i"
    and "\<forall>c. n \<le> g c \<and> g c < n + length ps \<longrightarrow> matches (ps ! (g c - n)) c"
    and "sorted_wrt (\<lambda>a b. g a \<le> g b) sf"
    and "\<forall>a \<in> set sf. g a < n"
    and "\<forall>c \<in> set cs. g c < n \<longrightarrow> c \<in> set sf"
  shows "sorted_wrt (\<lambda>a b. g a \<le> g b) (rank_loop ps cs limit sf)
       \<and> (\<forall>b \<in> set (rank_loop ps cs limit sf). \<forall>c \<in> set cs. g c < g b \<longrightarrow>
             c \<in> set (rank_loop ps cs limit sf))"
  using assms
proof (induction ps arbitrary: n sf)
  case Nil
  have "c \<in> set sf" if "b \<in> set sf" and "c \<in> set cs" and "g c < g b" for b c
  proof -
    have "g b < n" using Nil.prems(4) that(1) by simp
    then have "g c < n" using that(3) by simp
    then show ?thesis using Nil.prems(5) that(2) by simp
  qed
  then show ?case using Nil.prems(3) by simp
next
  case (Cons p ps)
  let ?sf = "scan p cs sf"
  obtain ys where ys: "?sf = sf @ ys" "set ys = {c \<in> set cs. matches p c} - set sf"
    using scan_appends [of p cs sf] by blast
  have new: "g y = n" if "y \<in> set ys" for y
  proof -
    have "matches ((p # ps) ! 0) y" using that ys(2) by simp
    then show ?thesis using Cons.prems(1) [rule_format, of 0 y] by simp
  qed
  have "sorted_wrt (\<lambda>a b. g a \<le> g b) ys"
    using new by (intro sorted_wrt_same [of _ _ n]) simp
  moreover have "g a \<le> g y" if "a \<in> set sf" and "y \<in> set ys" for a y
    using Cons.prems(4) new that by (simp add: less_imp_le)
  ultimately have sorted: "sorted_wrt (\<lambda>a b. g a \<le> g b) ?sf"
    using Cons.prems(3) unfolding ys(1) sorted_wrt_append by blast
  have bound: "\<forall>a \<in> set ?sf. g a < Suc n"
  proof
    fix a assume "a \<in> set ?sf"
    then have "a \<in> set sf \<or> a \<in> set ys" by (simp add: ys(1))
    then show "g a < Suc n"
      using Cons.prems(4) new by (auto simp: less_Suc_eq)
  qed
  have complete: "\<forall>c \<in> set cs. g c < Suc n \<longrightarrow> c \<in> set ?sf"
  proof (intro ballI impI)
    fix c assume c: "c \<in> set cs" and "g c < Suc n"
    then consider "g c < n" | "g c = n" by linarith
    then show "c \<in> set ?sf"
    proof cases
      case 1
      then have "c \<in> set sf" using Cons.prems(5) c by simp
      then show ?thesis by (simp add: ys(1))
    next
      case 2
      then have "matches ((p # ps) ! (g c - n)) c"
        using Cons.prems(2) [rule_format, of c] by simp
      then have "matches p c" using 2 by simp
      then show ?thesis using c by (simp add: set_scan)
    qed
  qed
  show ?case
  proof (cases "int (length ?sf) \<ge> limit")
    case True
    have "c \<in> set ?sf" if "b \<in> set ?sf" and "c \<in> set cs" and "g c < g b" for b c
    proof -
      have "g b < Suc n" using bound that(1) by simp
      then have "g c < Suc n" using that(3) by simp
      then show ?thesis using complete that(2) by simp
    qed
    then have "\<forall>b \<in> set ?sf. \<forall>c \<in> set cs. g c < g b \<longrightarrow> c \<in> set ?sf"
      by blast
    with True sorted show ?thesis by (simp add: Let_def)
  next
    case False
    have h1: "\<forall>i < length ps. \<forall>c. matches (ps ! i) c \<longrightarrow> g c = Suc n + i"
    proof (intro allI impI)
      fix i c assume "i < length ps" and "matches (ps ! i) c"
      then show "g c = Suc n + i"
        using Cons.prems(1) [rule_format, of "Suc i" c] by simp
    qed
    have h2: "\<forall>c. Suc n \<le> g c \<and> g c < Suc n + length ps \<longrightarrow> matches (ps ! (g c - Suc n)) c"
    proof (intro allI impI)
      fix c assume a: "Suc n \<le> g c \<and> g c < Suc n + length ps"
      then have "matches ((p # ps) ! (g c - n)) c"
        using Cons.prems(2) [rule_format, of c] by simp
      moreover have "g c - n = Suc (g c - Suc n)" using a by linarith
      ultimately show "matches (ps ! (g c - Suc n)) c" by simp
    qed
    have "rank_loop (p # ps) cs limit sf = rank_loop ps cs limit ?sf"
      using False by (simp add: Let_def)
    then show ?thesis
      using Cons.IH [OF h1 h2 sorted bound complete] by simp
  qed
qed

lemma rank_loop_priority_list:
  "sorted_wrt (\<lambda>a b. rank_of a \<le> rank_of b) (rank_loop priority_list cs limit [])
   \<and> (\<forall>b \<in> set (rank_loop priority_list cs limit []). \<forall>c \<in> set cs. rank_of c < rank_of b \<longrightarrow>
         c \<in> set (rank_loop priority_list cs limit []))"
proof (rule rank_loop_invariant [where n = 0])
  show "\<forall>i < length priority_list. \<forall>c. matches (priority_list ! i) c \<longrightarrow> rank_of c = 0 + i"
    using rank_of_position by simp
  show "\<forall>c. 0 \<le> rank_of c \<and> rank_of c < 0 + length priority_list \<longrightarrow>
          matches (priority_list ! (rank_of c - 0)) c"
    using first_match_matches [of priority_list] by (simp add: rank_of_def)
qed simp_all

lemma set_rank_loop_ranked:
  "set (rank_loop priority_list cs limit []) \<subseteq> ranked cs"
  using set_rank_loop_subset [of priority_list cs limit "[]"]
  by (auto simp: ranked_def rank_of_def first_match_lt_iff)

lemma rank_loop_below_limit:
  assumes "int (card (ranked cs)) < limit"
  shows "set (rank_loop priority_list cs limit []) = ranked cs"
proof -
  have "finite (ranked cs)" by (simp add: ranked_def)
  moreover have "{c \<in> set cs. \<exists>p \<in> set priority_list. matches p c} \<subseteq> ranked cs"
    by (auto simp: ranked_def rank_of_def first_match_lt_iff)
  ultimately have "set (rank_loop priority_list cs limit []) =
      set [] \<union> {c \<in> set cs. \<exists>p \<in> set priority_list. matches p c}"
    using assms by (intro set_rank_loop_all) simp_all
  then show ?thesis
    by (auto simp: ranked_def rank_of_def first_match_lt_iff)
qed

lemma mset_filter_split:
  "k \<notin> S \<Longrightarrow>
   mset (filter (\<lambda>c. b c = Some k) cs) + mset (filter (\<lambda>c. b c \<in> Some ` S) cs) =
   mset (filter (\<lambda>c. b c \<in> Some ` insert k S) cs)"
  by (induction cs) auto

lemma mset_concat_buckets:
  "distinct ks \<Longrightarrow>
   mset (concat (map (\<lambda>p. filter (\<lambda>c. b c = Some p) cs) ks)) =
   mset (filter (\<lambda>c. b c \<in> Some ` set ks) cs)"
proof (induction ks)
  case Nil
  then show ?case by simp
next
  case (Cons k ks)
  then have "k \<notin> set ks" and "distinct ks" by simp_all
  then show ?case
    using Cons.IH mset_filter_split [of k "set ks" b cs] by simp
qed

lemma bucket_of_in_keys:
  "bucket_of protos c \<in> Some ` set (map fst protos) \<longleftrightarrow> bucket_of protos c \<noteq> None"
proof
  assume "bucket_of protos c \<noteq> None"
  then obtain p where p: "bucket_of protos c = Some p" by blast
  then have "p \<in> set (map fst protos)"
    unfolding bucket_of_def by (rule find_prefix_holds [THEN conjunct2])
  with p show "bucket_of protos c \<in> Some ` set (map fst protos)" by simp
qed auto

lemma mset_all_buckets:
  assumes "distinct (map fst protos)"
  shows "mset (all_buckets protos configs) = mset (available protos configs)"
proof -
  have "all_buckets protos configs =
        concat (map (\<lambda>p. filter (\<lambda>c. bucket_of protos c = Some p) configs)
                  (map fst (sorted_protocols protos)))"
    by (simp add: all_buckets_def comp_def)
  then have "mset (all_buckets protos configs) =
        mset (filter (\<lambda>c. bucket_of protos c \<in> Some ` set (map fst (sorted_protocols protos))) configs)"
    using mset_concat_buckets [OF distinct_sorted_keys [OF assms]] by simp
  moreover have "set (map fst (sorted_protocols protos)) = set (map fst protos)"
    by (simp add: set_sorted_protocols)
  ultimately show ?thesis
    by (simp only: available_def bucket_of_in_keys)
qed

lemma length_balance_protocols: "length (balance_protocols C configs) \<le> 150"
  by (simp add: balance_protocols_def)

lemma balance_protocols_all:
  assumes "distinct (map fst (SUPPORTED_PROTOCOLS C))"
    and "length (available (SUPPORTED_PROTOCOLS C) configs) < 150"
  shows "balance_protocols C configs = all_buckets (SUPPORTED_PROTOCOLS C) configs"
proof -
  have "length (all_buckets (SUPPORTED_PROTOCOLS C) configs) =
        length (available (SUPPORTED_PROTOCOLS C) configs)"
    using mset_all_buckets [OF assms(1), of configs] by (metis size_mset)
  then show ?thesis
    using assms(2) by (simp add: balance_protocols_eq)
qed

lemma length_slice_to: "0 \<le> limit \<Longrightarrow> int (length (slice_to limit xs)) \<le> limit"
  by (simp add: slice_to_def)

lemma slice_to_prefix: "prefix (slice_to limit xs) xs"
  by (simp add: slice_to_def take_is_prefix)

lemma slice_to_all: "int (length xs) \<le> limit \<Longrightarrow> slice_to limit xs = xs"
  by (simp add: slice_to_def)

lemma rank_and_filter_below_limit:
  assumes "int (card (ranked configs)) < limit"
  shows "rank_and_filter configs limit = rank_loop priority_list configs limit []"
    and "set (rank_and_filter configs limit) = ranked configs"
proof -
  let ?r = "rank_loop priority_list configs limit []"
  have "distinct ?r" by (simp add: distinct_rank_loop)
  then have "length ?r = card (set ?r)" by (simp add: distinct_card)
  also have "\<dots> = card (ranked configs)"
    using rank_loop_below_limit [OF assms] by simp
  finally have "int (length ?r) \<le> limit" using assms by simp
  then show "rank_and_filter configs limit = ?r"
    by (simp add: rank_and_filter_def slice_to_all)
  then show "set (rank_and_filter configs limit) = ranked configs"
    using rank_loop_below_limit [OF assms] by simp
qed

lemma distinct_rank_and_filter: "distinct (rank_and_filter configs limit)"
proof -
  have "distinct (rank_loop priority_list configs limit [])"
    by (simp add: distinct_rank_loop)
  then show ?thesis
    by (simp add: rank_and_filter_def slice_to_def)
qed

lemma ascending_order_of_positions:
  fixes g :: "'a \<Rightarrow> nat"
  assumes "sorted_wrt (\<lambda>a b. g a \<le> g b) xs"
    and "i < length xs" and "j < length xs" and "g (xs ! i) < g (xs ! j)"
  shows "i < j"
proof (rule ccontr)
  assume "\<not> i < j"
  then have "j < i \<or> j = i" by auto
  then show False
  proof
    assume "j < i"
    then have "g (xs ! j) \<le> g (xs ! i)"
      using assms(1,2) by (simp add: sorted_wrt_iff_nth_less)
    with assms(4) show False by simp
  next
    assume "j = i"
    with assms(4) show False by simp
  qed
qed

lemma sorted_rank_and_filter:
  "sorted_wrt (\<lambda>a b. rank_of a \<le> rank_of b) (rank_and_filter configs limit)"
proof -
  have "sorted_wrt (\<lambda>a b. rank_of a \<le> rank_of b) (rank_loop priority_list configs limit [])"
    using rank_loop_priority_list by blast
  then show ?thesis
    by (simp add: rank_and_filter_def slice_to_def)
qed

lemma rank_and_filter_complete:
  assumes "b \<in> set (rank_and_filter configs limit)" and "c \<in> set configs"
    and "rank_of c < rank_of b"
  shows "c \<in> set (rank_and_filter configs limit)"
proof -
  let ?r = "rank_loop priority_list configs limit []"
  obtain rest where r: "?r = rank_and_filter configs limit @ rest"
    using slice_to_prefix [of limit ?r] by (auto simp: rank_and_filter_def prefix_def)
  have "b \<in> set ?r" using assms(1) r by (metis UnI1 set_append)
  then have "c \<in> set ?r"
    using rank_loop_priority_list [of configs limit] assms(2,3) by blast
  moreover have "c \<notin> set rest"
  proof
    assume "c \<in> set rest"
    have "sorted_wrt (\<lambda>a b. rank_of a \<le> rank_of b) (rank_and_filter configs limit @ rest)"
      using rank_loop_priority_list [of configs limit] r by simp
    then have "rank_of b \<le> rank_of c"
      using assms(1) \<open>c \<in> set rest\<close> by (simp add: sorted_wrt_append)
    with assms(3) show False by simp
  qed
  ultimately show ?thesis using r by (metis Un_iff set_append)
qed

lemma balance_example:
  "balance_protocols three_protocols merged_example =
     [''vless://b'', ''vless://d'', ''trojan://c'', ''ss://a'']"
  by (simp add: balance_protocols_def three_protocols_def merged_example_def sorted_protocols_def
      priority_key_def proto_map_def get_bucket_def Let_def)

lemma rank_example:
  "rank_and_filter merged_example 3 = [''vless://b'', ''vless://d'', ''trojan://c'']"
  by (simp add: rank_and_filter_def merged_example_def priority_list_def matches_def slice_to_def
      Let_def)

section \<open>Properties of the channel processors\<close>

lemma match_protocols_fresh:
  "match_protocols C V S ps config = Some c \<Longrightarrow> c \<notin> S"
proof (induction ps arbitrary: config)
  case Nil
  then show ?case by simp
next
  case (Cons x ps)
  obtain protocol info where x: "x = (protocol, info)" by (cases x)
  show ?case
    using Cons.prems Cons.IH
    by (simp add: x split: if_splits option.splits)
qed

lemma process_single_config_fresh:
  "process_single_config C V S raw = Some c \<Longrightarrow> c \<notin> S"
  unfolding process_single_config_def Let_def
  by (auto split: option.splits if_splits dest: match_protocols_fresh)

lemma accept_cases:
  obtains (dropped) "accept C V st raw = st"
  | (accepted) c where "process_single_config C V (fetcher_seen st) raw = Some c"
      and "c \<noteq> []" and "c \<notin> fetcher_seen st"
      and "accept C V st raw =
           \<lparr>channel_configs = channel_configs st @ [c], fetcher_seen = insert c (fetcher_seen st)\<rparr>"
proof (cases "process_single_config C V (fetcher_seen st) raw")
  case None
  then have "accept C V st raw = st" by (simp add: accept_def)
  then show ?thesis by (rule dropped)
next
  case (Some c)
  show ?thesis
  proof (cases "c = []")
    case True
    then have "accept C V st raw = st" using Some by (simp add: accept_def)
    then show ?thesis by (rule dropped)
  next
    case False
    have "c \<notin> fetcher_seen st"
      using Some by (rule process_single_config_fresh)
    moreover have "accept C V st raw =
        \<lparr>channel_configs = channel_configs st @ [c], fetcher_seen = insert c (fetcher_seen st)\<rparr>"
      using Some False by (simp add: accept_def)
    ultimately show ?thesis using Some False by (intro accepted)
  qed
qed

lemma accept_all_adds:
  "\<exists>new. channel_configs (accept_all C V raws st) = channel_configs st @ new
        \<and> distinct new \<and> set new \<inter> fetcher_seen st = {}
        \<and> fetcher_seen (accept_all C V raws st) = fetcher_seen st \<union> set new"
proof (induction raws arbitrary: st)
  case Nil
  then show ?case by (simp add: accept_all_def)
next
  case (Cons raw raws)
  have step: "accept_all C V (raw # raws) st = accept_all C V raws (accept C V st raw)"
    by (simp add: accept_all_def)
  show ?case
  proof (cases rule: accept_cases [of C V st raw])
    case dropped
    then show ?thesis using Cons.IH [of st] by (simp add: step)
  next
    case (accepted c)
    let ?st = "accept C V st raw"
    obtain new where new: "channel_configs (accept_all C V raws ?st) = channel_configs ?st @ new"
      "distinct new" "set new \<inter> fetcher_seen ?st = {}"
      "fetcher_seen (accept_all C V raws ?st) = fetcher_seen ?st \<union> set new"
      using Cons.IH [of ?st] by blast
    have cfg: "channel_configs ?st = channel_configs st @ [c]"
      and seen: "fetcher_seen ?st = insert c (fetcher_seen st)"
      by (simp_all add: accepted(4))
    have "channel_configs (accept_all C V (raw # raws) st) = channel_configs st @ (c # new)"
      by (simp add: step new(1) cfg)
    moreover have "distinct (c # new)"
      using new(2,3) seen by auto
    moreover have "set (c # new) \<inter> fetcher_seen st = {}"
      using new(3) seen accepted(3) by auto
    moreover have "fetcher_seen (accept_all C V (raw # raws) st) = fetcher_seen st \<union> set (c # new)"
      using new(4) seen by (simp add: step)
    ultimately show ?thesis by blast
  qed
qed

lemma channel_loop_adds:
  "\<exists>new. channel_configs (channel_loop C V found st) = channel_configs st @ new
        \<and> distinct new \<and> set new \<inter> fetcher_seen st = {}
        \<and> fetcher_seen (channel_loop C V found st) = fetcher_seen st \<union> set new"
proof (induction found arbitrary: st)
  case Nil
  then show ?case by simp
next
  case (Cons raw found)
  show ?case
  proof (cases "clean_config V (strip raw)")
    case None
    then show ?thesis by simp
  next
    case (Some clean)
    show ?thesis
    proof (cases "is_protocol_enabled C (protocol_of clean) \<and> clean \<notin> fetcher_seen st")
      case False
      then have "channel_loop C V (raw # found) st = channel_loop C V found st"
        using Some by (auto simp: Let_def)
      then show ?thesis using Cons.IH [of st] by simp
    next
      case True
      let ?st = "\<lparr>channel_configs = channel_configs st @ [clean],
                  fetcher_seen = insert clean (fetcher_seen st)\<rparr>"
      have step: "channel_loop C V (raw # found) st = channel_loop C V found ?st"
        using Some True by (simp add: Let_def)
      obtain new where new: "channel_configs (channel_loop C V found ?st) = channel_configs ?st @ new"
        "distinct new" "set new \<inter> fetcher_seen ?st = {}"
        "fetcher_seen (channel_loop C V found ?st) = fetcher_seen ?st \<union> set new"
        using Cons.IH [of ?st] by blast
      have "channel_configs (channel_loop C V (raw # found) st) = channel_configs st @ (clean # new)"
        unfolding step using new(1) by simp
      moreover have "distinct (clean # new)"
        using new(2,3) by auto
      moreover have "set (clean # new) \<inter> fetcher_seen st = {}"
        using new(3) True by auto
      moreover have "fetcher_seen (channel_loop C V (raw # found) st) = fetcher_seen st \<union> set (clean # new)"
        unfolding step using new(4) by simp
      ultimately show ?thesis by blast
    qed
  qed
qed

lemma fetch_configs_from_source_adds:
  assumes "fetch_configs_from_source C V W channel S = (res, S')"
  shows "distinct res \<and> set res \<inter> S = {} \<and> S' = S \<union> set res"
proof -
  have start: "distinct res \<and> set res \<inter> S = {} \<and> S' = S \<union> set res"
    if "res = channel_configs (accept_all C V raws \<lparr>channel_configs = [], fetcher_seen = S\<rparr>)"
      and "S' = fetcher_seen (accept_all C V raws \<lparr>channel_configs = [], fetcher_seen = S\<rparr>)"
    for raws
    using accept_all_adds [of C V raws "\<lparr>channel_configs = [], fetcher_seen = S\<rparr>"] that
    by auto
  show ?thesis
  proof (cases "enabled channel")
    case False
    then show ?thesis using assms by (simp add: fetch_configs_from_source_def)
  next
    case True
    show ?thesis
    proof (cases "fst (fetch_with_retry C (session_get W (url channel)))")
      case None
      then show ?thesis using assms True by (simp add: fetch_configs_from_source_def)
    next
      case (Some response)
      define raws where "raws = extract_configs_from_text V W
          (if is_telegram channel
           then join_lines (filter (\<lambda>m. m \<noteq> []) (message_texts W (response_text response)))
           else response_text response)"
      have "res = channel_configs (accept_all C V raws \<lparr>channel_configs = [], fetcher_seen = S\<rparr>)"
        and "S' = fetcher_seen (accept_all C V raws \<lparr>channel_configs = [], fetcher_seen = S\<rparr>)"
        using assms True Some by (auto simp: fetch_configs_from_source_def Let_def raws_def)
      then show ?thesis by (rule start)
    qed
  qed
qed

lemma fetch_sources_adds:
  "fetch_sources C V W channels S = (results, S') \<Longrightarrow>
   distinct (concat results) \<and> set (concat results) \<inter> S = {} \<and> S' = S \<union> set (concat results)"
proof (induction channels arbitrary: S results S')
  case Nil
  then show ?case by simp
next
  case (Cons channel channels)
  obtain res S1 where first: "fetch_configs_from_source C V W channel S = (res, S1)"
    by (cases "fetch_configs_from_source C V W channel S")
  obtain rest S2 where later: "fetch_sources C V W channels S1 = (rest, S2)"
    by (cases "fetch_sources C V W channels S1")
  have results: "results = res # rest" and S': "S' = S2"
    using Cons.prems first later by simp_all
  have a: "distinct res" "set res \<inter> S = {}" "S1 = S \<union> set res"
    using fetch_configs_from_source_adds [OF first] by simp_all
  have b: "distinct (concat rest)" "set (concat rest) \<inter> S1 = {}" "S2 = S1 \<union> set (concat rest)"
    using Cons.IH [OF later] by simp_all
  show ?case
    using a b by (auto simp: results S')
qed

lemma fetch_from_channel_adds:
  assumes "fetch_from_channel C V W channel S = (res, S')"
  shows "distinct res \<and> set res \<inter> S = {} \<and> S' = S \<union> set res"
proof -
  have start: "distinct res \<and> set res \<inter> S = {} \<and> S' = S \<union> set res"
    if "res = channel_configs (channel_loop C V found \<lparr>channel_configs = [], fetcher_seen = S\<rparr>)"
      and "S' = fetcher_seen (channel_loop C V found \<lparr>channel_configs = [], fetcher_seen = S\<rparr>)"
    for found
    using channel_loop_adds [of C V found "\<lparr>channel_configs = [], fetcher_seen = S\<rparr>"] that
    by auto
  show ?thesis
  proof (cases "enabled channel")
    case False
    then show ?thesis using assms by (simp add: fetch_from_channel_def)
  next
    case True
    show ?thesis
    proof (cases "session_get W (url channel) 0")
      case RequestException
      then show ?thesis using assms True by (simp add: fetch_from_channel_def)
    next
      case (Reply response)
      show ?thesis
      proof (cases "status_code response \<noteq> 200")
        case True
        then show ?thesis
          using assms \<open>enabled channel\<close> Reply by (simp add: fetch_from_channel_def)
      next
        case False
        define found where "found = findall channel_protocol_pattern
            (concat (map (\<lambda>m. m @ [CHR 0x0A]) (fresh_message_texts W (response_text response))))"
        have "res = channel_configs (channel_loop C V found \<lparr>channel_configs = [], fetcher_seen = S\<rparr>)"
          and "S' = fetcher_seen (channel_loop C V found \<lparr>channel_configs = [], fetcher_seen = S\<rparr>)"
          using assms \<open>enabled channel\<close> Reply False
          by (auto simp: fetch_from_channel_def Let_def found_def)
        then show ?thesis by (rule start)
      qed
    qed
  qed
qed

lemma fetch_channels_adds:
  "fetch_channels C V W channels S = (results, S') \<Longrightarrow>
   distinct (concat results) \<and> set (concat results) \<inter> S = {} \<and> S' = S \<union> set (concat results)"
proof (induction channels arbitrary: S results S')
  case Nil
  then show ?case by simp
next
  case (Cons channel channels)
  obtain res S1 where first: "fetch_from_channel C V W channel S = (res, S1)"
    by (cases "fetch_from_channel C V W channel S")
  obtain rest S2 where later: "fetch_channels C V W channels S1 = (rest, S2)"
    by (cases "fetch_channels C V W channels S1")
  have results: "results = res # rest" and S': "S' = S2"
    using Cons.prems first later by simp_all
  have a: "distinct res" "set res \<inter> S = {}" "S1 = S \<union> set res"
    using fetch_from_channel_adds [OF first] by simp_all
  have b: "distinct (concat rest)" "set (concat rest) \<inter> S1 = {}" "S2 = S1 \<union> set (concat rest)"
    using Cons.IH [OF later] by simp_all
  show ?case
    using a b by (auto simp: results S')
qed

lemma distinct_balance_protocols:
  assumes "distinct (map fst (SUPPORTED_PROTOCOLS C))" and "distinct cs"
  shows "distinct (balance_protocols C cs)"
proof -
  have "distinct (available (SUPPORTED_PROTOCOLS C) cs)"
    using assms(2) by (simp add: available_def)
  then have "distinct (all_buckets (SUPPORTED_PROTOCOLS C) cs)"
    using mset_all_buckets [OF assms(1), of cs] by (metis mset_eq_imp_distinct_iff)
  then show ?thesis
    by (simp add: balance_protocols_eq)
qed

lemmas eval_process =
  process_single_config_def strip_def isspace_def three_protocols_def plain_validator_def
  normalizeAlias_def Let_def

lemma process_duplicate:
  "process_single_config three_protocols plain_validator {''vless://a''} ''vless://a'' = None"
  by (simp add: eval_process)

lemma process_new:
  "process_single_config three_protocols plain_validator {''vless://a''} ''ss://b'' = Some ''ss://b''"
  by (simp add: eval_process)

lemma process_token:
  "process_single_config three_protocols plain_validator {} ''vless'' = None"
  by (simp add: eval_process)

lemma process_whole:
  "process_single_config three_protocols plain_validator {} ''vless://abc'' = Some ''vless://abc''"
  by (simp add: eval_process)

lemma accept_all_example:
  "accept_all three_protocols plain_validator [''vless://a'', ''vless://a'', ''ss://b''] nothing_seen =
     \<lparr>channel_configs = [''vless://a'', ''ss://b''], fetcher_seen = {''ss://b'', ''vless://a''}\<rparr>"
  by (simp add: accept_all_def accept_def nothing_seen_def eval_process)

lemma fetch_sources_example:
  "fetch_sources three_protocols plain_validator feed_world two_channels {} = ([[], []], {})"
  by (simp add: fetch_configs_from_source_def two_channels_def feed_world_def
      fetch_with_retry_def upt_rec try_get_def raise_for_status_def ok_page_def
      extract_configs_from_text_def findall_def protocol_pattern_def lower_def lower_char_def
      payload_char_def accept_all_def accept_def eval_process)

lemma fetch_all_example:
  "fetch_all_configs three_protocols plain_validator feed_world two_channels = Inr []"
  by (simp add: fetch_all_configs_def fetch_sources_example)

lemma strip_keeps_front:
  assumes "p \<noteq> []" and "\<not> isspace (hd p)" and "\<not> isspace (last p)"
  shows "strip (p @ s) = p @ rev (dropWhile isspace (rev s))"
proof -
  have front: "dropWhile isspace (p @ s) = p @ s"
    using assms(1,2) by (cases p) simp_all
  have "dropWhile isspace (rev p) = rev p"
    using assms(1,3) by (cases "rev p") (simp_all add: last_rev hd_rev [symmetric])
  then have "dropWhile isspace (rev s @ rev p) = dropWhile isspace (rev s) @ rev p"
    by (simp add: dropWhile_append)
  then show ?thesis
    by (simp add: strip_def front)
qed

lemma strip_hy2: "strip (''hy2://'' @ s) = ''hy2://'' @ rev (dropWhile isspace (rev s))"
  by (rule strip_keeps_front) (simp_all add: isspace_def)

lemma strip_hysteria2:
  "strip (''hysteria2://'' @ s) = ''hysteria2://'' @ rev (dropWhile isspace (rev s))"
  by (rule strip_keeps_front) (simp_all add: isspace_def)

lemma process_hy2:
  assumes "normalize_hysteria2_protocol V = (\<lambda>c. Some (normalizeAlias c))"
  shows "process_single_config C V S (''hy2://'' @ s) =
         match_protocols C V S (SUPPORTED_PROTOCOLS C)
           (''hysteria2://'' @ rev (dropWhile isspace (rev s)))"
  unfolding process_single_config_def strip_hy2 Let_def
  by (simp add: assms normalizeAlias_def)

lemma process_hysteria2:
  "process_single_config C V S (''hysteria2://'' @ s) =
         match_protocols C V S (SUPPORTED_PROTOCOLS C)
           (''hysteria2://'' @ rev (dropWhile isspace (rev s)))"
  unfolding process_single_config_def strip_hysteria2 Let_def
  by simp

lemma protocol_of_hy2: "protocol_of (''hy2://'' @ s) = ''hysteria2://''"
  by (simp add: protocol_of_def lower_def lower_char_def)

lemma protocol_of_hysteria2: "protocol_of (''hysteria2://'' @ s) = ''hysteria2://''"
  by (simp add: protocol_of_def lower_def lower_char_def)

lemma rank_of_hy2: "rank_of (''hy2://'' @ s) = 2"
  by (simp add: rank_of_def priority_list_def matches_def)

lemma rank_of_hysteria2: "rank_of (''hysteria2://'' @ s) = 2"
  by (simp add: rank_of_def priority_list_def matches_def)

section \<open>Properties of the extraction\<close>

lemma match_here_Some:
  "match_here tokens s = Some (g, w) \<Longrightarrow>
   lower g \<in> set tokens \<and> (\<exists>payload. w = g @ ''://'' @ payload)"
proof (induction tokens)
  case Nil
  then show ?case by simp
next
  case (Cons token tokens)
  then show ?case
    by (auto simp: Let_def split: if_splits)
qed

lemma scan_matches_elements:
  "(g, w) \<in> set (scan_matches tokens k s) \<Longrightarrow>
   lower g \<in> set tokens \<and> (\<exists>payload. w = g @ ''://'' @ payload)"
proof (induction tokens k s rule: scan_matches.induct)
  case (1 tokens skip)
  then show ?case by simp
next
  case (2 tokens skip c cs)
  then show ?case by simp
next
  case (3 tokens c cs)
  show ?case
  proof (cases "match_here tokens (c # cs)")
    case None
    then show ?thesis using 3 by simp
  next
    case (Some m)
    obtain g' w' where m: "m = (g', w')" by (cases m)
    have here: "lower g' \<in> set tokens \<and> (\<exists>payload. w' = g' @ ''://'' @ payload)"
      using Some m by (intro match_here_Some) simp
    have "(g, w) = (g', w') \<or> (g, w) \<in> set (scan_matches tokens (length w' - 1) cs)"
      using "3.prems" Some m by simp
    then show ?thesis
    proof
      assume "(g, w) = (g', w')"
      then show ?thesis using here by simp
    next
      assume "(g, w) \<in> set (scan_matches tokens (length w' - 1) cs)"
      then show ?thesis
        using "3.IH"(2) [OF Some m [symmetric]] by simp
    qed
  qed
qed

lemma findall_tokens: "x \<in> set (findall tokens s) \<Longrightarrow> lower x \<in> set tokens"
  unfolding findall_def using scan_matches_elements by fastforce

lemma whole_matches_separator:
  "w \<in> set (whole_matches tokens s) \<Longrightarrow> CHR '':'' \<in> set w"
  unfolding whole_matches_def using scan_matches_elements by fastforce

lemma token_without_separator:
  assumes "lower x \<in> set protocol_pattern"
  shows "CHR '':'' \<notin> set x"
proof
  assume "CHR '':'' \<in> set x"
  then have "lower_char CHR '':'' \<in> set (lower x)"
    unfolding lower_def set_map by (rule imageI)
  moreover have "lower_char CHR '':'' = CHR '':''"
    by (simp add: lower_char_def)
  ultimately have "CHR '':'' \<in> set (lower x)" by simp
  moreover have "\<forall>t \<in> set protocol_pattern. CHR '':'' \<notin> set t"
    by (simp add: protocol_pattern_def)
  ultimately show False using assms by blast
qed

lemma findall_never_a_whole_match:
  "x \<in> set (findall protocol_pattern s) \<Longrightarrow> x \<notin> set (whole_matches protocol_pattern s')"
  using findall_tokens token_without_separator whole_matches_separator by blast

section \<open>What the selectors place\<close>

lemma sorted_protocols_split:
  assumes "distinct (map fst protos)"
    and "(A, ia) \<in> set protos" and "(B, ib) \<in> set protos"
    and "priority_key (B, ib) < priority_key (A, ia)"
  obtains P1 P2 P3 where "sorted_protocols protos = P1 @ (A, ia) # P2 @ (B, ib) # P3"
proof -
  let ?ps = "sorted_protocols protos"
  have "(A, ia) \<in> set ?ps"
    using assms(2) by (simp add: set_sorted_protocols)
  then obtain P1 R where split1: "?ps = P1 @ (A, ia) # R"
    by (auto simp: in_set_conv_decomp)
  have sorted: "sorted_wrt (\<lambda>x y. priority_key y \<le> priority_key x) (P1 @ (A, ia) # R)"
    using sorted_protocols_descending [of protos] by (simp add: split1)
  have "(B, ib) \<in> set ?ps"
    using assms(3) by (simp add: set_sorted_protocols)
  then have "(B, ib) \<in> set P1 \<or> (B, ib) = (A, ia) \<or> (B, ib) \<in> set R"
    by (auto simp: split1)
  moreover have "(B, ib) \<notin> set P1"
  proof
    assume "(B, ib) \<in> set P1"
    then have "priority_key (A, ia) \<le> priority_key (B, ib)"
      using sorted by (simp add: sorted_wrt_append)
    with assms(4) show False by simp
  qed
  moreover have "(B, ib) \<noteq> (A, ia)"
    using assms(4) by auto
  ultimately have "(B, ib) \<in> set R" by blast
  then obtain P2 P3 where "R = P2 @ (B, ib) # P3"
    by (auto simp: in_set_conv_decomp)
  then have "?ps = P1 @ (A, ia) # P2 @ (B, ib) # P3"
    by (simp add: split1)
  then show ?thesis by (rule that)
qed

lemma buckets_of_others:
  assumes "k \<notin> fst ` set ps"
    and "c \<in> set (concat (map (\<lambda>x. filter (\<lambda>c. b c = Some (fst x)) cs) ps))"
  shows "b c \<noteq> Some k"
  using assms by force

lemma filter_take_block:
  assumes "\<forall>c \<in> set X. \<not> Q c" and "\<forall>c \<in> set As. Q c" and "\<forall>c \<in> set R. \<not> Q c"
  shows "filter Q (take n (X @ As @ R)) = take (n - length X) As"
proof -
  have x: "filter Q (take n X) = []"
    using assms(1) by (auto simp: filter_empty_conv dest: in_set_takeD)
  have a: "filter Q (take (n - length X) As) = take (n - length X) As"
    using assms(2) by (auto simp: filter_id_conv dest: in_set_takeD)
  have r: "filter Q (take m R) = []" for m
    using assms(3) by (auto simp: filter_empty_conv dest: in_set_takeD)
  show ?thesis
    by (simp add: x a r)
qed

lemma scan_behind:
  "\<forall>a \<in> set sf. \<not> matches p a \<Longrightarrow> scan p cs (sf @ acc) = sf @ scan p cs acc"
proof (induction cs arbitrary: acc)
  case Nil
  then show ?case by simp
next
  case (Cons c cs)
  have "c \<notin> set sf" if "matches p c"
    using that Cons.prems by blast
  then have test: "(matches p c \<and> c \<notin> set (sf @ acc)) = (matches p c \<and> c \<notin> set acc)"
    by auto
  show ?case
  proof (cases "matches p c \<and> c \<notin> set acc")
    case True
    then have "scan p (c # cs) (sf @ acc) = scan p cs (sf @ (acc @ [c]))"
      using test by simp
    also have "\<dots> = sf @ scan p cs (acc @ [c])"
      using Cons.prems by (rule Cons.IH)
    finally show ?thesis using True by simp
  next
    case False
    then have "scan p (c # cs) (sf @ acc) = scan p cs (sf @ acc)"
      using test by auto
    also have "\<dots> = sf @ scan p cs acc"
      using Cons.prems by (rule Cons.IH)
    finally show ?thesis using False by auto
  qed
qed

lemma scan_fresh: "\<forall>a \<in> set sf. \<not> matches p a \<Longrightarrow> scan p cs sf = sf @ scan p cs []"
  using scan_behind [of sf p cs "[]"] by simp

lemma scan_only_matching: "a \<in> set (scan p cs []) \<Longrightarrow> matches p a"
  by (simp add: set_scan)

lemma rank_loop_take:
  assumes "\<forall>a \<in> set sf. \<forall>p \<in> set ps. \<not> matches p a"
    and "distinct ps" and "set ps \<subseteq> set priority_list"
  shows "take n (rank_loop ps cs (int n) sf) = take n (sf @ concat (map (\<lambda>p. scan p cs []) ps))"
  using assms
proof (induction ps arbitrary: sf)
  case Nil
  then show ?case by simp
next
  case (Cons p ps)
  let ?sf = "scan p cs sf"
  have sf: "?sf = sf @ scan p cs []"
    using Cons.prems(1) by (intro scan_fresh) simp
  show ?case
  proof (cases "int (length ?sf) \<ge> int n")
    case True
    then have "rank_loop (p # ps) cs (int n) sf = ?sf"
      by (simp add: Let_def)
    moreover have "take n ?sf = take n (?sf @ concat (map (\<lambda>p. scan p cs []) ps))"
      using True by simp
    ultimately show ?thesis by (simp add: sf)
  next
    case False
    have none: "\<forall>a \<in> set ?sf. \<forall>q \<in> set ps. \<not> matches q a"
    proof (intro ballI)
      fix a q assume a: "a \<in> set ?sf" and q: "q \<in> set ps"
      then consider "a \<in> set sf" | "a \<in> set (scan p cs [])"
        by (auto simp: sf)
      then show "\<not> matches q a"
      proof cases
        case 1
        then show ?thesis using Cons.prems(1) q by simp
      next
        case 2
        then have "matches p a" by (rule scan_only_matching)
        moreover have "q \<noteq> p" using Cons.prems(2) q by auto
        moreover have "p \<in> set priority_list" and "q \<in> set priority_list"
          using Cons.prems(3) q by auto
        ultimately show ?thesis
          using matches_exclusive [of q p a] by blast
      qed
    qed
    have "rank_loop (p # ps) cs (int n) sf = rank_loop ps cs (int n) ?sf"
      using False by (simp add: Let_def)
    moreover have "take n (rank_loop ps cs (int n) ?sf) =
        take n (?sf @ concat (map (\<lambda>p. scan p cs []) ps))"
      using none Cons.prems(2,3) by (intro Cons.IH) simp_all
    ultimately show ?thesis by (simp add: sf)
  qed
qed

lemma rank_and_filter_eq:
  assumes "0 \<le> limit"
  shows "rank_and_filter configs limit =
         take (nat limit) (concat (map (\<lambda>p. scan p configs []) priority_list))"
proof -
  have "distinct priority_list"
    by (simp add: priority_list_def)
  then have "take (nat limit) (rank_loop priority_list configs (int (nat limit)) []) =
      take (nat limit) ([] @ concat (map (\<lambda>p. scan p configs []) priority_list))"
    by (intro rank_loop_take) simp_all
  then show ?thesis
    using assms by (simp add: rank_and_filter_def slice_to_def)
qed

lemma concat_priority_list:
  "concat (map f priority_list) =
   f ''vless://'' @ f ''trojan://'' @ f ''hy2://'' @ f ''ss://'' @ f ''vmess://''"
  by (simp add: priority_list_def)

lemma fetch_from_channel_status:
  assumes "enabled channel" and "session_get W (url channel) 0 = Reply r"
    and "\<not> channel_status_ok r"
  shows "fetch_from_channel C V W channel seen = ([], seen)"
  using assms by (simp add: fetch_from_channel_def channel_status_ok_def)

lemma balance_order:
  assumes "distinct (map fst (SUPPORTED_PROTOCOLS C))"
    and "(A, ia) \<in> set (SUPPORTED_PROTOCOLS C)"
    and "(B, ib) \<in> set (SUPPORTED_PROTOCOLS C)"
    and "priority_key (B, ib) < priority_key (A, ia)"
    and "i < length (balance_protocols C configs)" and "j < length (balance_protocols C configs)"
    and "bucket_of (SUPPORTED_PROTOCOLS C) (balance_protocols C configs ! i) = Some A"
    and "bucket_of (SUPPORTED_PROTOCOLS C) (balance_protocols C configs ! j) = Some B"
  shows "i < j"
proof -
  let ?P = "SUPPORTED_PROTOCOLS C"
  let ?out = "balance_protocols C configs"
  let ?g = "priority_of ?P"
  have "sorted_wrt (\<lambda>a b. ?g b \<le> ?g a) (all_buckets ?P configs)"
    by (rule all_buckets_descending [OF assms(1)])
  then have out_sorted: "sorted_wrt (\<lambda>a b. ?g b \<le> ?g a) ?out"
    unfolding balance_protocols_eq by (rule sorted_wrt_take)
  show ?thesis
  proof (rule descending_order_of_positions [OF out_sorted assms(5,6)])
    show "?g (?out ! j) < ?g (?out ! i)"
      using priority_of_bucket [OF assms(1,2), of "?out ! i"]
        priority_of_bucket [OF assms(1,3), of "?out ! j"] assms(4,7,8) by simp
  qed
qed

lemma balance_supply:
  assumes "distinct (map fst (SUPPORTED_PROTOCOLS C))"
    and "(A, ia) \<in> set (SUPPORTED_PROTOCOLS C)"
    and "(B, ib) \<in> set (SUPPORTED_PROTOCOLS C)"
    and "priority_key (B, ib) < priority_key (A, ia)"
    and b_out: "b \<in> set (balance_protocols C configs)"
    and b_B: "bucket_of (SUPPORTED_PROTOCOLS C) b = Some B"
  shows "filter (\<lambda>c. bucket_of (SUPPORTED_PROTOCOLS C) c = Some A) (balance_protocols C configs) =
         filter (\<lambda>c. bucket_of (SUPPORTED_PROTOCOLS C) c = Some A) configs"
proof -
  let ?P = "SUPPORTED_PROTOCOLS C"
  let ?all = "all_buckets ?P configs"
  let ?out = "balance_protocols C configs"
  let ?g = "priority_of ?P"
  have out: "?out = take 150 ?all"
    by (rule balance_protocols_eq)
  have all_sorted: "sorted_wrt (\<lambda>a b. ?g b \<le> ?g a) ?all"
    by (rule all_buckets_descending [OF assms(1)])
  have gA: "?g c = priority_key (A, ia)" if "bucket_of ?P c = Some A" for c
    using priority_of_bucket [OF assms(1,2)] that by simp
  have gB: "?g c = priority_key (B, ib)" if "bucket_of ?P c = Some B" for c
    using priority_of_bucket [OF assms(1,3)] that by simp
  obtain j where j: "j < length ?out" "?out ! j = b"
    using b_out by (auto simp: in_set_conv_nth)
  then have j150: "j < 150" and jall: "j < length ?all" and bj: "?all ! j = b"
    by (simp_all add: out)
  have "i < 150" if "i < length ?all" and "bucket_of ?P (?all ! i) = Some A" for i
  proof -
    have "?g (?all ! j) < ?g (?all ! i)"
      using gA [OF that(2)] gB [of "?all ! j"] bj b_B assms(4) by simp
    then have "i < j"
      by (rule descending_order_of_positions [OF all_sorted that(1) jall])
    then show ?thesis using j150 by simp
  qed
  then have "filter (\<lambda>c. bucket_of ?P c = Some A) (take 150 ?all) =
             filter (\<lambda>c. bucket_of ?P c = Some A) ?all"
    by (intro filter_take_all) blast
  moreover have "A \<in> fst ` set ?P"
    using assms(2) by force
  ultimately show ?thesis
    using filter_all_buckets [OF assms(1), of A configs] by (simp add: out)
qed

lemma balance_placement:
  assumes "distinct (map fst (SUPPORTED_PROTOCOLS C))"
    and "(A, ia) \<in> set (SUPPORTED_PROTOCOLS C)"
    and "(B, ib) \<in> set (SUPPORTED_PROTOCOLS C)"
    and "priority_key (B, ib) < priority_key (A, ia)"
  shows "\<exists>X Y Z.
      balance_protocols C configs =
        take 150 (X @ filter (\<lambda>c. bucket_of (SUPPORTED_PROTOCOLS C) c = Some A) configs
                    @ Y @ filter (\<lambda>c. bucket_of (SUPPORTED_PROTOCOLS C) c = Some B) configs @ Z)
      \<and> (\<forall>c \<in> set (X @ Y @ Z). bucket_of (SUPPORTED_PROTOCOLS C) c \<noteq> Some A
             \<and> bucket_of (SUPPORTED_PROTOCOLS C) c \<noteq> Some B)
      \<and> (\<forall>c \<in> set X. priority_key (A, ia) \<le> priority_of (SUPPORTED_PROTOCOLS C) c)
      \<and> filter (\<lambda>c. bucket_of (SUPPORTED_PROTOCOLS C) c = Some A) (balance_protocols C configs) =
          take (150 - length X) (filter (\<lambda>c. bucket_of (SUPPORTED_PROTOCOLS C) c = Some A) configs)
      \<and> filter (\<lambda>c. bucket_of (SUPPORTED_PROTOCOLS C) c = Some B) (balance_protocols C configs) =
          take (150 - length (X @ filter (\<lambda>c. bucket_of (SUPPORTED_PROTOCOLS C) c = Some A) configs @ Y))
            (filter (\<lambda>c. bucket_of (SUPPORTED_PROTOCOLS C) c = Some B) configs)"
proof -
  let ?P = "SUPPORTED_PROTOCOLS C"
  let ?b = "bucket_of ?P"
  let ?f = "\<lambda>x. filter (\<lambda>c. ?b c = Some (fst x)) configs"
  let ?As = "filter (\<lambda>c. ?b c = Some A) configs"
  let ?Bs = "filter (\<lambda>c. ?b c = Some B) configs"
  obtain P1 P2 P3 where split: "sorted_protocols ?P = P1 @ (A, ia) # P2 @ (B, ib) # P3"
    using assms by (rule sorted_protocols_split)
  define X where "X = concat (map ?f P1)"
  define Y where "Y = concat (map ?f P2)"
  define Z where "Z = concat (map ?f P3)"
  have all: "all_buckets ?P configs = X @ ?As @ Y @ ?Bs @ Z"
    by (simp add: all_buckets_def split X_def Y_def Z_def)
  have out: "balance_protocols C configs = take 150 (X @ ?As @ Y @ ?Bs @ Z)"
    by (simp add: balance_protocols_eq all)
  have dk: "distinct (map fst (P1 @ (A, ia) # P2 @ (B, ib) # P3))"
    using distinct_sorted_keys [OF assms(1)] by (simp add: split)
  have A1: "A \<notin> fst ` set P1" and A2: "A \<notin> fst ` set P2" and A3: "A \<notin> fst ` set P3"
    and B1: "B \<notin> fst ` set P1" and B2: "B \<notin> fst ` set P2" and B3: "B \<notin> fst ` set P3"
    and AB: "A \<noteq> B"
    using dk by auto
  have X: "?b c \<noteq> Some A \<and> ?b c \<noteq> Some B" if "c \<in> set X" for c
    using that buckets_of_others [OF A1, of c ?b configs] buckets_of_others [OF B1, of c ?b configs]
    by (simp add: X_def)
  have Y: "?b c \<noteq> Some A \<and> ?b c \<noteq> Some B" if "c \<in> set Y" for c
    using that buckets_of_others [OF A2, of c ?b configs] buckets_of_others [OF B2, of c ?b configs]
    by (simp add: Y_def)
  have Z: "?b c \<noteq> Some A \<and> ?b c \<noteq> Some B" if "c \<in> set Z" for c
    using that buckets_of_others [OF A3, of c ?b configs] buckets_of_others [OF B3, of c ?b configs]
    by (simp add: Z_def)
  have others: "\<forall>c \<in> set (X @ Y @ Z). ?b c \<noteq> Some A \<and> ?b c \<noteq> Some B"
    using X Y Z by auto
  have prio: "\<forall>c \<in> set X. priority_key (A, ia) \<le> priority_of ?P c"
  proof
    fix c assume "c \<in> set X"
    then obtain x where x: "x \<in> set P1" and c: "?b c = Some (fst x)"
      by (auto simp: X_def)
    have "sorted_wrt (\<lambda>x y. priority_key y \<le> priority_key x) (P1 @ (A, ia) # P2 @ (B, ib) # P3)"
      using sorted_protocols_descending [of ?P] by (simp add: split)
    then have "priority_key (A, ia) \<le> priority_key x"
      using x by (simp add: sorted_wrt_append)
    moreover have "x \<in> set (sorted_protocols ?P)"
      using x by (simp add: split)
    then have "x \<in> set ?P"
      by (simp only: set_sorted_protocols)
    then have "priority_of ?P c = priority_key x"
      using c by (intro priority_of_bucket [OF assms(1)])
    ultimately show "priority_key (A, ia) \<le> priority_of ?P c" by simp
  qed
  have fa: "filter (\<lambda>c. ?b c = Some A) (take 150 (X @ ?As @ (Y @ ?Bs @ Z))) = take (150 - length X) ?As"
  proof (rule filter_take_block)
    show "\<forall>c \<in> set X. \<not> ?b c = Some A" using X by blast
    show "\<forall>c \<in> set ?As. ?b c = Some A" by simp
    show "\<forall>c \<in> set (Y @ ?Bs @ Z). \<not> ?b c = Some A" using Y Z AB by auto
  qed
  have fb: "filter (\<lambda>c. ?b c = Some B) (take 150 ((X @ ?As @ Y) @ ?Bs @ Z)) =
      take (150 - length (X @ ?As @ Y)) ?Bs"
  proof (rule filter_take_block)
    show "\<forall>c \<in> set (X @ ?As @ Y). \<not> ?b c = Some B" using X Y AB by auto
    show "\<forall>c \<in> set ?Bs. ?b c = Some B" by simp
    show "\<forall>c \<in> set Z. \<not> ?b c = Some B" using Z by blast
  qed
  have "filter (\<lambda>c. ?b c = Some A) (balance_protocols C configs) = take (150 - length X) ?As"
    using fa by (simp add: out)
  moreover have "filter (\<lambda>c. ?b c = Some B) (balance_protocols C configs) =
      take (150 - length (X @ ?As @ Y)) ?Bs"
    using fb by (simp add: out)
  ultimately show ?thesis
    using out others prio by blast
qed

lemma set_balance_available:
  "set (balance_protocols C configs) \<subseteq> set (available (SUPPORTED_PROTOCOLS C) configs)"
proof
  fix c assume "c \<in> set (balance_protocols C configs)"
  then have "c \<in> set (all_buckets (SUPPORTED_PROTOCOLS C) configs)"
    unfolding balance_protocols_eq by (rule in_set_takeD)
  then show "c \<in> set (available (SUPPORTED_PROTOCOLS C) configs)"
    by (auto simp: all_buckets_def available_def)
qed

lemma length_balance_exact:
  assumes "distinct (map fst (SUPPORTED_PROTOCOLS C))"
  shows "length (balance_protocols C configs) =
         min 150 (length (available (SUPPORTED_PROTOCOLS C) configs))"
proof -
  have "length (all_buckets (SUPPORTED_PROTOCOLS C) configs) =
        length (available (SUPPORTED_PROTOCOLS C) configs)"
    using mset_all_buckets [OF assms, of configs] by (metis size_mset)
  then show ?thesis
    by (simp add: balance_protocols_eq min.commute)
qed

lemma set_rank_and_filter_ranked: "set (rank_and_filter configs limit) \<subseteq> ranked configs"
proof
  fix c assume "c \<in> set (rank_and_filter configs limit)"
  then have "c \<in> set (rank_loop priority_list configs limit [])"
    using slice_to_prefix [of limit "rank_loop priority_list configs limit []"]
    unfolding rank_and_filter_def by (rule set_mono_prefix [THEN subsetD, rotated])
  then show "c \<in> ranked configs"
    using set_rank_loop_ranked by blast
qed

lemma length_rank_and_filter_exact:
  assumes "0 \<le> limit"
  shows "length (rank_and_filter configs limit) = min (nat limit) (card (ranked configs))"
proof -
  let ?full = "concat (map (\<lambda>p. scan p configs []) priority_list)"
  let ?big = "int (card (ranked configs)) + 1"
  have below: "int (card (ranked configs)) < ?big" by simp
  have "rank_and_filter configs ?big = take (nat ?big) ?full"
    by (intro rank_and_filter_eq) simp
  moreover have "distinct (rank_and_filter configs ?big)"
    by (rule distinct_rank_and_filter)
  moreover have "set (rank_and_filter configs ?big) = ranked configs"
    using below by (rule rank_and_filter_below_limit(2))
  ultimately have "length (take (nat ?big) ?full) = card (ranked configs)"
    by (metis distinct_card)
  then have "length ?full = card (ranked configs)"
    by (simp add: min_def split: if_splits)
  then show ?thesis
    by (simp add: rank_and_filter_eq [OF assms] min.commute)
qed

lemmas eval_selection =
  rank_and_filter_def priority_list_def matches_def slice_to_def Let_def

lemma rank_unranked_example: "rank_and_filter [''tuic://t'', ''wireguard://w''] 150 = []"
  by (simp add: eval_selection)

lemma rank_one_example: "rank_and_filter merged_example 1 = [''vless://b'']"
  by (simp add: eval_selection merged_example_def)

lemma fetch_channels_example:
  "fetch_channels three_protocols plain_validator tuic_world two_channels {} =
     ([[''tuic'', ''vless''], []], {''vless'', ''tuic''})"
  by (simp add: fetch_from_channel_def two_channels_def tuic_world_def tuic_page_def
      findall_def channel_protocol_pattern_def lower_def lower_char_def payload_char_def
      isspace_def strip_def protocol_of_def three_protocols_def plain_validator_def Let_def)

lemma get_all_example:
  "get_all three_protocols plain_validator tuic_world two_channels 150 False = []"
  by (simp add: get_all_def fetch_channels_example eval_selection)

lemma process_alias_example:
  "process_single_config shadow_protocols plain_validator {} ''shadowsocks://x'' =
     Some ''shadowsocks://x''"
  by (simp add: process_single_config_def strip_def isspace_def shadow_protocols_def
      plain_validator_def normalizeAlias_def Let_def)

lemma balance_alias_example: "balance_protocols shadow_protocols [''shadowsocks://x''] = []"
  by (simp add: balance_protocols_def shadow_protocols_def sorted_protocols_def
      priority_key_def proto_map_def get_bucket_def Let_def)

subsection \<open>Claims about the fetcher\<close>

text \<open>
  C4, as the code has it. While the attempts fail, each attempt \<open>i\<close> is followed by a
  wait of \<open>min(30, RETRY_DELAY * 2^i)\<close> seconds: the cap is the literal 30, not a
  parameter. The wait is in the \<open>except\<close> branch, which does not look at the attempt
  number, so it follows the last permitted attempt as well: when all \<open>MAX_RETRIES\<close>
  attempts fail, the function returns \<open>None\<close> after as many waits as attempts.
\<close>

theorem backoff_follows_every_failed_attempt:
  assumes "n \<le> MAX_RETRIES C" and "\<forall>i < n. try_get (get i) = None"
  shows "prefix (concat (map (failed_round (RETRY_DELAY C)) [0..<n])) (snd (fetch_with_retry C get))
       \<and> (\<forall>i < n. failed_round (RETRY_DELAY C) i =
                     [Attempt i, Sleep (min 30 (RETRY_DELAY C * 2 ^ i))])
       \<and> (n = MAX_RETRIES C \<longrightarrow>
            fetch_with_retry C get =
              (None, concat (map (failed_round (RETRY_DELAY C)) [0..<MAX_RETRIES C])))"
proof -
  have rounds: "fetch_with_retry C get =
      retry_loop (RETRY_DELAY C) get [n..<MAX_RETRIES C] (2 ^ n)
        (concat (map (failed_round (RETRY_DELAY C)) [0..<n]))"
    by (rule fetch_rounds [OF assms])
  have "prefix (concat (map (failed_round (RETRY_DELAY C)) [0..<n])) (snd (fetch_with_retry C get))"
    unfolding rounds by (rule retry_loop_extends)
  moreover have "n = MAX_RETRIES C \<longrightarrow>
      fetch_with_retry C get =
        (None, concat (map (failed_round (RETRY_DELAY C)) [0..<MAX_RETRIES C]))"
    using rounds by auto
  ultimately show ?thesis
    by (simp add: failed_round_def nextDelay_def)
qed

theorem backoff_follows_every_failed_attempt_witness:
  "fetch_with_retry three_tries always_failing =
     (None, [Attempt 0, Sleep 5, Attempt 1, Sleep 10, Attempt 2, Sleep 20])"
proof -
  have le: "3 \<le> MAX_RETRIES three_tries"
    by (simp add: three_tries_def)
  have fail: "\<forall>i < 3. try_get (always_failing i) = None"
    by (simp add: try_get_def always_failing_def)
  have "[0..<3] = [0, 1, 2]"
    by (simp add: upt_rec)
  then show ?thesis
    using backoff_follows_every_failed_attempt [OF le fail]
    by (simp add: three_tries_def failed_round_def nextDelay_def)
qed

text \<open>
  C4, as the specification states it, says that no wait follows the final permitted
  attempt. With three permitted attempts that all fail, the last thing the function does
  before it returns \<open>None\<close> is to sleep for 20 seconds.
\<close>

theorem trailing_wait_counterexample:
  "fst (fetch_with_retry three_tries always_failing) = None
   \<and> attempts (snd (fetch_with_retry three_tries always_failing)) = MAX_RETRIES three_tries
   \<and> last (snd (fetch_with_retry three_tries always_failing)) = Sleep 20"
  by (simp add: fetch_with_retry_def three_tries_def upt_rec try_get_def attempts_def
      always_failing_def)

text \<open>
  C5. If the first \<open>k < MAX_RETRIES\<close> attempts fail and attempt number \<open>k + 1\<close>
  succeeds, \<open>fetch_with_retry\<close> returns the response of that attempt, has made exactly
  \<open>k + 1\<close> attempts, and has slept \<open>nextDelay 0\<close>, ..., \<open>nextDelay (k - 1)\<close>, so
  that the time spent sleeping is their sum.
\<close>

theorem success_after_k_failures:
  assumes "k < MAX_RETRIES C"
    and "\<forall>i < k. try_get (get i) = None"
    and "try_get (get k) = Some r"
  shows "fst (fetch_with_retry C get) = Some r
       \<and> attempts (snd (fetch_with_retry C get)) = k + 1
       \<and> sleeps (snd (fetch_with_retry C get)) = map (nextDelay 30 (RETRY_DELAY C)) [0..<k]
       \<and> sum_list (sleeps (snd (fetch_with_retry C get))) =
           (\<Sum>i = 0..<k. nextDelay 30 (RETRY_DELAY C) i)"
proof -
  have le: "k \<le> MAX_RETRIES C"
    using assms(1) by simp
  have rest: "[k..<MAX_RETRIES C] = k # [Suc k..<MAX_RETRIES C]"
    using assms(1) by (simp add: upt_conv_Cons)
  have run: "fetch_with_retry C get =
      (Some r, concat (map (failed_round (RETRY_DELAY C)) [0..<k]) @ [Attempt k])"
    unfolding fetch_rounds [OF le assms(2)] rest
    by (simp add: assms(3))
  have "attempts [Attempt k] = 1" and "sleeps [Attempt k] = []"
    by (simp_all add: attempts_def sleeps_def)
  then show ?thesis
    unfolding run
    by (simp add: attempts_append sleeps_append attempts_rounds sleeps_rounds
        interv_sum_list_conv_sum_set_nat)
qed

theorem success_after_k_failures_witness:
  "fst (fetch_with_retry three_tries third_time_lucky) = Some ok_page
   \<and> attempts (snd (fetch_with_retry three_tries third_time_lucky)) = 3
   \<and> sleeps (snd (fetch_with_retry three_tries third_time_lucky)) = [5, 10]
   \<and> sum_list (sleeps (snd (fetch_with_retry three_tries third_time_lucky))) = 15"
proof -
  have lt: "2 < MAX_RETRIES three_tries"
    by (simp add: three_tries_def)
  have fail: "\<forall>i < 2. try_get (third_time_lucky i) = None"
    by (simp add: try_get_def third_time_lucky_def)
  have ok: "try_get (third_time_lucky 2) = Some ok_page"
    by (simp add: try_get_def raise_for_status_def ok_page_def third_time_lucky_def)
  have "[0..<2] = [0, 1]"
    by (simp add: upt_rec)
  then show ?thesis
    using success_after_k_failures [OF lt fail ok]
    by (simp add: three_tries_def nextDelay_def)
qed

text \<open>
  C9, as the code has it. In \<open>fetch_with_retry\<close> an attempt succeeds exactly when the
  request raises nothing and the status code is outside 400..599, the range for which
  \<open>raise_for_status\<close> raises: every code in 200..299 is a success, and so is every other
  code below 400 or from 600. A success ends the loop with that response; any other
  outcome is followed by the wait and the next attempt. In \<open>fetch_from_channel\<close> of
  config.py the only accepted status code is 200.
\<close>

theorem success_is_no_error_status:
  "(try_get (Reply r) = Some r \<longleftrightarrow> \<not> (400 \<le> status_code r \<and> status_code r < 600))
   \<and> (try_get (Reply r) = None \<longleftrightarrow> 400 \<le> status_code r \<and> status_code r < 600)
   \<and> try_get RequestException = None
   \<and> (200 \<le> status_code r \<and> status_code r \<le> 299 \<longrightarrow> try_get (Reply r) = Some r)
   \<and> (try_get (get attempt) = Some r \<longrightarrow>
        retry_loop d get (attempt # rest) backoff evs = (Some r, evs @ [Attempt attempt]))
   \<and> (try_get (get attempt) = None \<longrightarrow>
        retry_loop d get (attempt # rest) backoff evs =
        retry_loop d get rest (backoff * 2) (evs @ [Attempt attempt, Sleep (min (d * backoff) 30)]))
   \<and> (channel_status_ok r \<longleftrightarrow> status_code r = 200)"
  by (simp add: try_get_def raise_for_status_def channel_status_ok_def Let_def)

theorem success_is_no_error_status_witness:
  "try_get (Reply ok_page) = Some ok_page
   \<and> retry_loop 5 third_time_lucky [2] 4 [] = (Some ok_page, [Attempt 2])
   \<and> retry_loop 5 third_time_lucky [1, 2] 2 [] =
       retry_loop 5 third_time_lucky [2] 4 [Attempt 1, Sleep 10]
   \<and> channel_status_ok ok_page"
proof -
  have ok: "try_get (third_time_lucky 2) = Some ok_page"
    by (simp add: try_get_def raise_for_status_def ok_page_def third_time_lucky_def)
  have fail: "try_get (third_time_lucky 1) = None"
    by (simp add: try_get_def third_time_lucky_def)
  have code: "200 \<le> status_code ok_page \<and> status_code ok_page \<le> 299"
    by (simp add: ok_page_def)
  show ?thesis
    using success_is_no_error_status [of ok_page third_time_lucky 2 5 "[]" 4 "[]"]
      success_is_no_error_status [of ok_page third_time_lucky 1 5 "[2]" 2 "[]"]
      ok fail code
    by (simp add: ok_page_def)
qed

text \<open>
  C9, as the specification states it, makes 200..299 the only successful status codes.
  A response with status code 304 ends \<open>fetch_with_retry\<close> with success at the first
  attempt and without any wait, and a response with status code 204 is rejected by
  \<open>fetch_from_channel\<close>.
\<close>

theorem success_outside_2xx_counterexample:
  "fetch_with_retry three_tries first_not_modified =
     (Some not_modified, [Attempt 0])
   \<and> \<not> (200 \<le> status_code not_modified \<and> status_code not_modified \<le> 299)
   \<and> \<not> channel_status_ok no_content
   \<and> 200 \<le> status_code no_content \<and> status_code no_content \<le> 299"
  by (simp add: fetch_with_retry_def three_tries_def upt_rec try_get_def raise_for_status_def
      not_modified_def no_content_def channel_status_ok_def first_not_modified_def)

subsection \<open>Claims about the selectors\<close>

text \<open>
  C2. A record belongs to the protocol into whose bucket \<open>balance_protocols\<close> puts it,
  and protocol \<open>A\<close> has a strictly higher priority than protocol \<open>B\<close>; the keys of
  \<open>SUPPORTED_PROTOCOLS\<close> are distinct, as the keys of a dictionary are. The output is
  the first 150 records of \<open>all_buckets\<close>, the buckets one after the other in the order
  of \<open>sorted_protocols\<close>. In that list the whole bucket of \<open>A\<close> stands before the whole
  bucket of \<open>B\<close>, and the records \<open>X\<close> before the bucket of \<open>A\<close> belong to protocols whose
  priority is not lower than that of \<open>A\<close>. So the output has the records of \<open>A\<close>, in
  their order, as far as 150 leaves room behind \<open>X\<close>, and the records of \<open>B\<close> as far as
  it leaves room behind \<open>X\<close>, the bucket of \<open>A\<close> and what lies between the two buckets.
  In particular every record of \<open>A\<close> in the output stands before every record of \<open>B\<close>,
  and an output that holds a record of \<open>B\<close> holds all records of \<open>A\<close>.

  \<open>rank_and_filter\<close> of config.py does the same with its fixed list \<open>priority\<close>, where
  an earlier place is a higher priority. For a limit that is not negative its output is
  the first \<open>limit\<close> records of the list that has, place after place, the different
  merged records of that place in the order in which they first occur. Records of an
  earlier place stand first, and a record in the output has all merged records of the
  earlier places with it.
\<close>

theorem priority_order_of_selection:
  assumes "distinct (map fst (SUPPORTED_PROTOCOLS C))"
    and "(A, ia) \<in> set (SUPPORTED_PROTOCOLS C)"
    and "(B, ib) \<in> set (SUPPORTED_PROTOCOLS C)"
    and "priority_key (B, ib) < priority_key (A, ia)"
  shows "balance_protocols C configs = take 150 (all_buckets (SUPPORTED_PROTOCOLS C) configs)
       \<and> (\<exists>X Y Z.
            balance_protocols C configs =
              take 150 (X @ filter (\<lambda>c. bucket_of (SUPPORTED_PROTOCOLS C) c = Some A) configs
                          @ Y @ filter (\<lambda>c. bucket_of (SUPPORTED_PROTOCOLS C) c = Some B) configs @ Z)
            \<and> (\<forall>c \<in> set (X @ Y @ Z). bucket_of (SUPPORTED_PROTOCOLS C) c \<noteq> Some A
                   \<and> bucket_of (SUPPORTED_PROTOCOLS C) c \<noteq> Some B)
            \<and> (\<forall>c \<in> set X. priority_key (A, ia) \<le> priority_of (SUPPORTED_PROTOCOLS C) c)
            \<and> filter (\<lambda>c. bucket_of (SUPPORTED_PROTOCOLS C) c = Some A) (balance_protocols C configs) =
                take (150 - length X)
                  (filter (\<lambda>c. bucket_of (SUPPORTED_PROTOCOLS C) c = Some A) configs)
            \<and> filter (\<lambda>c. bucket_of (SUPPORTED_PROTOCOLS C) c = Some B) (balance_protocols C configs) =
                take (150 - length
                        (X @ filter (\<lambda>c. bucket_of (SUPPORTED_PROTOCOLS C) c = Some A) configs @ Y))
                  (filter (\<lambda>c. bucket_of (SUPPORTED_PROTOCOLS C) c = Some B) configs))
       \<and> (\<forall>i j. i < length (balance_protocols C configs) \<and> j < length (balance_protocols C configs)
            \<and> bucket_of (SUPPORTED_PROTOCOLS C) (balance_protocols C configs ! i) = Some A
            \<and> bucket_of (SUPPORTED_PROTOCOLS C) (balance_protocols C configs ! j) = Some B
            \<longrightarrow> i < j)
       \<and> ((\<exists>b \<in> set (balance_protocols C configs). bucket_of (SUPPORTED_PROTOCOLS C) b = Some B)
            \<longrightarrow> filter (\<lambda>c. bucket_of (SUPPORTED_PROTOCOLS C) c = Some A) (balance_protocols C configs) =
                filter (\<lambda>c. bucket_of (SUPPORTED_PROTOCOLS C) c = Some A) configs)
       \<and> (0 \<le> limit \<longrightarrow>
            rank_and_filter configs limit =
              take (nat limit)
                (scan ''vless://'' configs [] @ scan ''trojan://'' configs [] @ scan ''hy2://'' configs []
                   @ scan ''ss://'' configs [] @ scan ''vmess://'' configs []))
       \<and> set (scan p configs []) = {c \<in> set configs. matches p c}
       \<and> distinct (scan p configs [])
       \<and> (\<forall>i j. i < length (rank_and_filter configs limit) \<and> j < length (rank_and_filter configs limit)
            \<and> rank_of (rank_and_filter configs limit ! i) < rank_of (rank_and_filter configs limit ! j)
            \<longrightarrow> i < j)
       \<and> (\<forall>b \<in> set (rank_and_filter configs limit). \<forall>c \<in> set configs.
            rank_of c < rank_of b \<longrightarrow> c \<in> set (rank_and_filter configs limit))"
proof (intro conjI allI impI ballI)
  let ?P = "SUPPORTED_PROTOCOLS C"
  show "balance_protocols C configs = take 150 (all_buckets ?P configs)"
    by (rule balance_protocols_eq)
  show "\<exists>X Y Z.
      balance_protocols C configs =
        take 150 (X @ filter (\<lambda>c. bucket_of ?P c = Some A) configs
                    @ Y @ filter (\<lambda>c. bucket_of ?P c = Some B) configs @ Z)
      \<and> (\<forall>c \<in> set (X @ Y @ Z). bucket_of ?P c \<noteq> Some A \<and> bucket_of ?P c \<noteq> Some B)
      \<and> (\<forall>c \<in> set X. priority_key (A, ia) \<le> priority_of ?P c)
      \<and> filter (\<lambda>c. bucket_of ?P c = Some A) (balance_protocols C configs) =
          take (150 - length X) (filter (\<lambda>c. bucket_of ?P c = Some A) configs)
      \<and> filter (\<lambda>c. bucket_of ?P c = Some B) (balance_protocols C configs) =
          take (150 - length (X @ filter (\<lambda>c. bucket_of ?P c = Some A) configs @ Y))
            (filter (\<lambda>c. bucket_of ?P c = Some B) configs)"
    using assms by (rule balance_placement)
  show "i < j"
    if "i < length (balance_protocols C configs) \<and> j < length (balance_protocols C configs)
        \<and> bucket_of ?P (balance_protocols C configs ! i) = Some A
        \<and> bucket_of ?P (balance_protocols C configs ! j) = Some B" for i j
    using balance_order [OF assms, of i configs j] that by blast
  show "filter (\<lambda>c. bucket_of ?P c = Some A) (balance_protocols C configs) =
        filter (\<lambda>c. bucket_of ?P c = Some A) configs"
    if "\<exists>b \<in> set (balance_protocols C configs). bucket_of ?P b = Some B"
    using balance_supply [OF assms] that by blast
  show "rank_and_filter configs limit =
      take (nat limit)
        (scan ''vless://'' configs [] @ scan ''trojan://'' configs [] @ scan ''hy2://'' configs []
           @ scan ''ss://'' configs [] @ scan ''vmess://'' configs [])"
    if "0 \<le> limit"
    using rank_and_filter_eq [OF that, of configs]
    by (simp only: concat_priority_list)
  show "set (scan p configs []) = {c \<in> set configs. matches p c}"
    by (simp add: set_scan)
  show "distinct (scan p configs [])"
    by (simp add: distinct_scan)
  show "i < j"
    if "i < length (rank_and_filter configs limit) \<and> j < length (rank_and_filter configs limit)
        \<and> rank_of (rank_and_filter configs limit ! i) < rank_of (rank_and_filter configs limit ! j)"
    for i j
    using sorted_rank_and_filter [of configs limit] that
    by (intro ascending_order_of_positions [of rank_of "rank_and_filter configs limit" i j]) simp_all
  show "c \<in> set (rank_and_filter configs limit)"
    if "b \<in> set (rank_and_filter configs limit)" and "c \<in> set configs"
      and "rank_of c < rank_of b" for b c
    using that by (rule rank_and_filter_complete)
qed

theorem priority_order_of_selection_witness:
  "balance_protocols three_protocols merged_example =
     [''vless://b'', ''vless://d'', ''trojan://c'', ''ss://a'']
   \<and> filter (\<lambda>c. bucket_of (SUPPORTED_PROTOCOLS three_protocols) c = Some ''vless://'')
        (balance_protocols three_protocols merged_example) = [''vless://b'', ''vless://d'']
   \<and> rank_and_filter merged_example 3 = [''vless://b'', ''vless://d'', ''trojan://c'']
   \<and> rank_and_filter merged_example 1 = [''vless://b'']
   \<and> ''vless://d'' \<in> set (rank_and_filter merged_example 3)"
proof -
  let ?P = "SUPPORTED_PROTOCOLS three_protocols"
  have keys: "distinct (map fst ?P)"
    by (simp add: three_protocols_def)
  have a: "(''vless://'', \<lparr>priority = Some 3, aliases = None\<rparr>) \<in> set ?P"
    by (simp add: three_protocols_def)
  have b: "(''ss://'', \<lparr>priority = Some 1, aliases = None\<rparr>) \<in> set ?P"
    by (simp add: three_protocols_def)
  have higher: "priority_key (''ss://'', \<lparr>priority = Some 1, aliases = None\<rparr>)
      < priority_key (''vless://'', \<lparr>priority = Some 3, aliases = None\<rparr>)"
    by (simp add: priority_key_def)
  note selection = priority_order_of_selection [OF keys a b higher,
      where configs = merged_example and limit = 3]
  note first_only = priority_order_of_selection [OF keys a b higher,
      where configs = merged_example and limit = 1]
  have part1: "balance_protocols three_protocols merged_example =
      [''vless://b'', ''vless://d'', ''trojan://c'', ''ss://a'']"
  proof -
    have "all_buckets ?P merged_example = [''vless://b'', ''vless://d'', ''trojan://c'', ''ss://a'']"
      by (simp add: all_buckets_def sorted_protocols_def priority_key_def bucket_of_def
          three_protocols_def merged_example_def)
    then show ?thesis
      using selection [THEN conjunct1] by simp
  qed
  have ss: "bucket_of ?P ''ss://a'' = Some ''ss://''"
    by (simp add: bucket_of_def three_protocols_def)
  have placed_b: "\<exists>b \<in> set (balance_protocols three_protocols merged_example).
      bucket_of ?P b = Some ''ss://''"
  proof (rule bexI [of _ "''ss://a''"])
    show "bucket_of ?P ''ss://a'' = Some ''ss://''" by (rule ss)
    show "''ss://a'' \<in> set (balance_protocols three_protocols merged_example)"
      by (simp add: part1)
  qed
  have all_a: "filter (\<lambda>c. bucket_of ?P c = Some ''vless://'')
        (balance_protocols three_protocols merged_example) =
      filter (\<lambda>c. bucket_of ?P c = Some ''vless://'') merged_example"
    by (rule selection [THEN conjunct2, THEN conjunct2, THEN conjunct2, THEN conjunct1,
          rule_format, OF placed_b])
  have "filter (\<lambda>c. bucket_of ?P c = Some ''vless://'') merged_example =
      [''vless://b'', ''vless://d'']"
    by (simp add: bucket_of_def three_protocols_def merged_example_def)
  with all_a have part2: "filter (\<lambda>c. bucket_of ?P c = Some ''vless://'')
        (balance_protocols three_protocols merged_example) = [''vless://b'', ''vless://d'']"
    by (rule trans)
  have scans: "scan ''vless://'' merged_example [] @ scan ''trojan://'' merged_example []
      @ scan ''hy2://'' merged_example [] @ scan ''ss://'' merged_example []
      @ scan ''vmess://'' merged_example [] =
      [''vless://b'', ''vless://d'', ''trojan://c'', ''ss://a'']"
    by (simp add: merged_example_def matches_def)
  have "rank_and_filter merged_example 3 =
      take (nat 3)
        (scan ''vless://'' merged_example [] @ scan ''trojan://'' merged_example []
           @ scan ''hy2://'' merged_example [] @ scan ''ss://'' merged_example []
           @ scan ''vmess://'' merged_example [])"
    by (rule selection [THEN conjunct2, THEN conjunct2, THEN conjunct2, THEN conjunct2,
          THEN conjunct1, rule_format]) simp
  then have part3: "rank_and_filter merged_example 3 = [''vless://b'', ''vless://d'', ''trojan://c'']"
    by (simp only: scans) simp
  have "rank_and_filter merged_example 1 =
      take (nat 1)
        (scan ''vless://'' merged_example [] @ scan ''trojan://'' merged_example []
           @ scan ''hy2://'' merged_example [] @ scan ''ss://'' merged_example []
           @ scan ''vmess://'' merged_example [])"
    by (rule first_only [THEN conjunct2, THEN conjunct2, THEN conjunct2, THEN conjunct2,
          THEN conjunct1, rule_format]) simp
  then have part4: "rank_and_filter merged_example 1 = [''vless://b'']"
    by (simp only: scans) simp
  have part5: "''vless://d'' \<in> set (rank_and_filter merged_example 3)"
  proof (rule selection [THEN conjunct2, THEN conjunct2, THEN conjunct2, THEN conjunct2,
        THEN conjunct2, THEN conjunct2, THEN conjunct2, THEN conjunct2, rule_format,
        of "''trojan://c''"])
    show "''trojan://c'' \<in> set (rank_and_filter merged_example 3)"
      by (simp add: part3)
    show "''vless://d'' \<in> set merged_example"
      by (simp add: merged_example_def)
    show "rank_of ''vless://d'' < rank_of ''trojan://c''"
      by (simp add: rank_of_def priority_list_def matches_def)
  qed
  show ?thesis
    using part1 part2 part3 part4 part5 by (intro conjI)
qed

text \<open>
  C7, as the code has it. The output of \<open>balance_protocols\<close> has at most 150 records,
  the limit that the function fixes, and that of \<open>rank_and_filter\<close> at most \<open>limit\<close>
  records for a limit that is not negative. A selector places only the records it has a
  bucket for: \<open>balance_protocols\<close> those that start with a key of
  \<open>SUPPORTED_PROTOCOLS\<close> (\<open>available\<close>), \<open>rank_and_filter\<close> those that start with an
  entry of its list \<open>priority\<close> (\<open>ranked\<close>). Every other merged record is left out,
  whatever the limit. The output has as many records as the limit and the number of
  these records allow; when there are fewer of them than the limit, the output consists
  of exactly these records, for \<open>balance_protocols\<close> each as often as the merged list has
  it, for \<open>rank_and_filter\<close> each once; it is the whole merged list when every merged
  record is available.
\<close>

theorem selection_bounded_and_complete:
  "length (balance_protocols C configs) \<le> 150
   \<and> (distinct (map fst (SUPPORTED_PROTOCOLS C))
        \<and> length (available (SUPPORTED_PROTOCOLS C) configs) < 150
      \<longrightarrow> mset (balance_protocols C configs) = mset (available (SUPPORTED_PROTOCOLS C) configs))
   \<and> (distinct (map fst (SUPPORTED_PROTOCOLS C)) \<and> length configs < 150
        \<and> (\<forall>c \<in> set configs. bucket_of (SUPPORTED_PROTOCOLS C) c \<noteq> None)
      \<longrightarrow> mset (balance_protocols C configs) = mset configs)
   \<and> (0 \<le> limit \<longrightarrow> int (length (rank_and_filter configs limit)) \<le> limit)
   \<and> (int (card (ranked configs)) < limit
      \<longrightarrow> set (rank_and_filter configs limit) = ranked configs
          \<and> distinct (rank_and_filter configs limit))
   \<and> (distinct (map fst (SUPPORTED_PROTOCOLS C))
      \<longrightarrow> length (balance_protocols C configs) =
            min 150 (length (available (SUPPORTED_PROTOCOLS C) configs)))
   \<and> set (balance_protocols C configs) \<subseteq> set (available (SUPPORTED_PROTOCOLS C) configs)
   \<and> (0 \<le> limit
      \<longrightarrow> length (rank_and_filter configs limit) = min (nat limit) (card (ranked configs)))
   \<and> set (rank_and_filter configs limit) \<subseteq> ranked configs"
proof -
  let ?P = "SUPPORTED_PROTOCOLS C"
  have bounded: "length (balance_protocols C configs) \<le> 150"
    by (rule length_balance_protocols)
  have complete: "mset (balance_protocols C configs) = mset (available ?P configs)"
    if "distinct (map fst ?P)" and "length (available ?P configs) < 150"
    using balance_protocols_all [OF that] mset_all_buckets [OF that(1)] by simp
  have everything: "mset (balance_protocols C configs) = mset configs"
    if keys: "distinct (map fst ?P)" and few: "length configs < 150"
      and all: "\<forall>c \<in> set configs. bucket_of ?P c \<noteq> None"
  proof -
    have "available ?P configs = configs"
      using all by (simp add: available_def)
    then show ?thesis
      using complete [OF keys] few by simp
  qed
  have rank_bounded: "int (length (rank_and_filter configs limit)) \<le> limit" if "0 \<le> limit"
    using that by (simp add: rank_and_filter_def length_slice_to)
  have rank_complete: "set (rank_and_filter configs limit) = ranked configs"
    if "int (card (ranked configs)) < limit"
    using that by (rule rank_and_filter_below_limit(2))
  show ?thesis
  proof (intro conjI impI)
    show "length (balance_protocols C configs) \<le> 150" by (rule bounded)
    show "mset (balance_protocols C configs) = mset (available ?P configs)"
      if "distinct (map fst ?P) \<and> length (available ?P configs) < 150"
      using that complete by blast
    show "mset (balance_protocols C configs) = mset configs"
      if "distinct (map fst ?P) \<and> length configs < 150
          \<and> (\<forall>c \<in> set configs. bucket_of ?P c \<noteq> None)"
      using that everything by blast
    show "int (length (rank_and_filter configs limit)) \<le> limit" if "0 \<le> limit"
      using that by (rule rank_bounded)
    show "set (rank_and_filter configs limit) = ranked configs"
      if "int (card (ranked configs)) < limit"
      using that by (rule rank_complete)
    show "distinct (rank_and_filter configs limit)"
      by (rule distinct_rank_and_filter)
    show "length (balance_protocols C configs) = min 150 (length (available ?P configs))"
      if "distinct (map fst ?P)"
      using that by (rule length_balance_exact)
    show "set (balance_protocols C configs) \<subseteq> set (available ?P configs)"
      by (rule set_balance_available)
    show "length (rank_and_filter configs limit) = min (nat limit) (card (ranked configs))"
      if "0 \<le> limit"
      using that by (rule length_rank_and_filter_exact)
    show "set (rank_and_filter configs limit) \<subseteq> ranked configs"
      by (rule set_rank_and_filter_ranked)
  qed
qed

theorem selection_bounded_and_complete_witness:
  "mset (balance_protocols three_protocols merged_example) = mset merged_example
   \<and> length (balance_protocols three_protocols merged_example) = 4
   \<and> int (length (rank_and_filter merged_example 3)) \<le> 3
   \<and> set (rank_and_filter merged_example 10) = set merged_example
   \<and> length (rank_and_filter merged_example 1) = 1"
proof -
  let ?P = "SUPPORTED_PROTOCOLS three_protocols"
  have keys: "distinct (map fst ?P)"
    by (simp add: three_protocols_def)
  have few: "length merged_example < 150"
    by (simp add: merged_example_def)
  have av: "available ?P merged_example = merged_example"
    by (simp add: available_def bucket_of_def three_protocols_def merged_example_def)
  have all: "\<forall>c \<in> set merged_example. bucket_of ?P c \<noteq> None"
    by (simp add: bucket_of_def three_protocols_def merged_example_def)
  have ranked: "ranked merged_example = set merged_example"
    by (auto simp: ranked_def rank_of_def priority_list_def matches_def merged_example_def)
  have "card (set merged_example) = 4"
    by (simp add: merged_example_def)
  then have below: "int (card (ranked merged_example)) < 10"
    by (simp add: ranked)
  have part1: "mset (balance_protocols three_protocols merged_example) = mset merged_example"
    by (rule selection_bounded_and_complete [of three_protocols merged_example 3,
          THEN conjunct2, THEN conjunct2, THEN conjunct1, rule_format])
       (intro conjI keys few all)
  have part3: "int (length (rank_and_filter merged_example 3)) \<le> 3"
    by (rule selection_bounded_and_complete [of three_protocols merged_example 3,
          THEN conjunct2, THEN conjunct2, THEN conjunct2, THEN conjunct1, rule_format]) simp
  have "set (rank_and_filter merged_example 10) = ranked merged_example"
    using selection_bounded_and_complete [of three_protocols merged_example 10,
          THEN conjunct2, THEN conjunct2, THEN conjunct2, THEN conjunct2, THEN conjunct1,
          rule_format, OF below]
    by (rule conjunct1)
  then have part4: "set (rank_and_filter merged_example 10) = set merged_example"
    by (simp only: ranked)
  have "length (rank_and_filter merged_example 1) = min (nat 1) (card (ranked merged_example))"
    by (rule selection_bounded_and_complete [of three_protocols merged_example 1,
          THEN conjunct2, THEN conjunct2, THEN conjunct2, THEN conjunct2, THEN conjunct2,
          THEN conjunct2, THEN conjunct2, THEN conjunct1, rule_format]) simp
  then have part5: "length (rank_and_filter merged_example 1) = 1"
    using \<open>card (set merged_example) = 4\<close> by (simp add: ranked)
  have part2: "length (balance_protocols three_protocols merged_example) = 4"
    by (simp add: balance_example)
  show ?thesis
    using part1 part2 part3 part4 part5 by (intro conjI)
qed

text \<open>
  C7, as the specification states it, lets the output contain all merged records when
  they are fewer than the limit. \<open>rank_and_filter\<close> has no place for the schemes
  \<open>tuic://\<close> and \<open>wireguard://\<close>, which the pattern of config.py extracts and
  \<open>fetch_from_channel\<close> accepts: of two such records and the limit 150 it returns
  nothing. So does a whole run of config.py: two channels that serve the page
  \<open>tuic://t vless://v\<close> accept two records, and \<open>get_all\<close> with the limit 150 returns
  the empty list. In fetch\_configs.py a record that \<open>process_single_config\<close> accepts
  through an alias of its protocol starts with no key of \<open>SUPPORTED_PROTOCOLS\<close>, and
  \<open>balance_protocols\<close> leaves it out.
\<close>

theorem unplaced_records_counterexample:
  "rank_and_filter [''tuic://t'', ''wireguard://w''] 150 = []
   \<and> int (length [''tuic://t'', ''wireguard://w'']) < 150
   \<and> fst (fetch_channels three_protocols plain_validator tuic_world two_channels {}) =
       [[''tuic'', ''vless''], []]
   \<and> get_all three_protocols plain_validator tuic_world two_channels 150 False = []
   \<and> process_single_config shadow_protocols plain_validator {} ''shadowsocks://x'' =
       Some ''shadowsocks://x''
   \<and> balance_protocols shadow_protocols [''shadowsocks://x''] = []"
  using rank_unranked_example get_all_example process_alias_example balance_alias_example
  by (simp add: fetch_channels_example)

subsection \<open>Claims about the channel processors\<close>

text \<open>
  C3. In a run that handles its channels one after the other, no string is accepted
  twice, be it by one channel or by two: the concatenation of the lists that the channels
  return has no duplicates, neither has what \<open>balance_protocols\<close> selects from it
  (the keys of \<open>SUPPORTED_PROTOCOLS\<close> are distinct, as the keys of a dictionary are),
  and neither has a list that \<open>fetch_all_configs\<close> returns. The same holds for the run
  of config.py (\<open>fetch_channels\<close>, then \<open>rank_and_filter\<close>). The loop of
  \<open>fetch_configs_from_source\<close> keeps it so for any list of candidates: if the accepted
  records are distinct and all in \<open>seen_configs\<close> before, they are so after.
\<close>

theorem no_duplicates_in_a_sequential_run:
  "distinct (concat (fst (fetch_sources C V W channels {})))
   \<and> (distinct (map fst (SUPPORTED_PROTOCOLS C))
        \<longrightarrow> distinct (balance_protocols C (concat (fst (fetch_sources C V W channels {})))))
   \<and> (fetch_all_configs C V W channels = Inr out \<longrightarrow> distinct out)
   \<and> (distinct (channel_configs st) \<and> set (channel_configs st) \<subseteq> fetcher_seen st
        \<longrightarrow> distinct (channel_configs (accept_all C V raws st))
            \<and> set (channel_configs (accept_all C V raws st)) \<subseteq> fetcher_seen (accept_all C V raws st))
   \<and> distinct (concat (fst (fetch_channels C V W channels {})))
   \<and> distinct (get_all C V W channels SPECIFIC_CONFIG_COUNT USE_MAXIMUM_POWER)"
proof (intro conjI impI)
  obtain results S where run: "fetch_sources C V W channels {} = (results, S)"
    by (cases "fetch_sources C V W channels {}")
  have merged: "distinct (concat results)"
    using fetch_sources_adds [OF run] by simp
  then show "distinct (concat (fst (fetch_sources C V W channels {})))"
    by (simp add: run)
  show "distinct (balance_protocols C (concat (fst (fetch_sources C V W channels {}))))"
    if "distinct (map fst (SUPPORTED_PROTOCOLS C))"
    using distinct_balance_protocols [OF that merged] by (simp add: run)
  show "distinct out" if "fetch_all_configs C V W channels = Inr out"
    using that by (auto simp: fetch_all_configs_def Let_def split: if_splits)
next
  assume inv: "distinct (channel_configs st) \<and> set (channel_configs st) \<subseteq> fetcher_seen st"
  obtain new where new: "channel_configs (accept_all C V raws st) = channel_configs st @ new"
    "distinct new" "set new \<inter> fetcher_seen st = {}"
    "fetcher_seen (accept_all C V raws st) = fetcher_seen st \<union> set new"
    using accept_all_adds [of C V raws st] by blast
  show "distinct (channel_configs (accept_all C V raws st))"
    using inv new(2,3) by (auto simp: new(1))
  show "set (channel_configs (accept_all C V raws st)) \<subseteq> fetcher_seen (accept_all C V raws st)"
    using inv by (auto simp: new(1,4))
next
  obtain results S where run: "fetch_channels C V W channels {} = (results, S)"
    by (cases "fetch_channels C V W channels {}")
  show "distinct (concat (fst (fetch_channels C V W channels {})))"
    using fetch_channels_adds [OF run] by (simp add: run)
  show "distinct (get_all C V W channels SPECIFIC_CONFIG_COUNT USE_MAXIMUM_POWER)"
    by (simp add: get_all_def Let_def distinct_rank_and_filter)
qed

theorem no_duplicates_in_a_sequential_run_witness:
  "distinct (balance_protocols three_protocols
       (concat (fst (fetch_sources three_protocols plain_validator feed_world two_channels {}))))
   \<and> fetch_all_configs three_protocols plain_validator feed_world two_channels = Inr []
   \<and> channel_configs (accept_all three_protocols plain_validator
        [''vless://a'', ''vless://a'', ''ss://b''] nothing_seen) = [''vless://a'', ''ss://b'']
   \<and> distinct (channel_configs (accept_all three_protocols plain_validator
        [''vless://a'', ''vless://a'', ''ss://b''] nothing_seen))"
proof -
  have keys: "distinct (map fst (SUPPORTED_PROTOCOLS three_protocols))"
    by (simp add: three_protocols_def)
  have start: "distinct (channel_configs nothing_seen)
      \<and> set (channel_configs nothing_seen) \<subseteq> fetcher_seen nothing_seen"
    by (simp add: nothing_seen_def)
  note run = no_duplicates_in_a_sequential_run
    [where C = three_protocols and V = plain_validator and W = feed_world
       and channels = two_channels and out = "[]" and st = nothing_seen
       and raws = "[''vless://a'', ''vless://a'', ''ss://b'']"]
  have part1: "distinct (balance_protocols three_protocols
       (concat (fst (fetch_sources three_protocols plain_validator feed_world two_channels {}))))"
    using keys by (rule run [THEN conjunct2, THEN conjunct1, rule_format])
  have part0: "fetch_all_configs three_protocols plain_validator feed_world two_channels = Inr []"
    by (rule fetch_all_example)
  have "distinct ([] :: string list)"
    using part0 by (rule run [THEN conjunct2, THEN conjunct2, THEN conjunct1, rule_format])
  have part3: "distinct (channel_configs (accept_all three_protocols plain_validator
        [''vless://a'', ''vless://a'', ''ss://b''] nothing_seen))"
    using run [THEN conjunct2, THEN conjunct2, THEN conjunct2, THEN conjunct1, rule_format, OF start]
    by (rule conjunct1)
  have part2: "channel_configs (accept_all three_protocols plain_validator
        [''vless://a'', ''vless://a'', ''ss://b''] nothing_seen) = [''vless://a'', ''ss://b'']"
    by (simp add: accept_all_example)
  show ?thesis
    using part1 part0 part2 part3 by (intro conjI)
qed

text \<open>
  C10. \<open>process_single_config\<close> only reads \<open>seen_configs\<close>; the set changes in the
  loop of \<open>fetch_configs_from_source\<close>, next to \<open>configs.append\<close>. When
  \<open>process_single_config\<close> returns \<open>None\<close> the step changes nothing; when a step
  changes the set, it has accepted a record, appended it to the list of the channel and
  inserted this record; and over the whole loop the set grows by exactly the records
  that the loop has appended.
\<close>

theorem dropped_candidate_leaves_seen_configs:
  "(process_single_config C V (fetcher_seen st) raw = None \<longrightarrow> accept C V st raw = st)
   \<and> (fetcher_seen (accept C V st raw) \<noteq> fetcher_seen st \<longrightarrow>
        (\<exists>processed. process_single_config C V (fetcher_seen st) raw = Some processed
           \<and> channel_configs (accept C V st raw) = channel_configs st @ [processed]
           \<and> fetcher_seen (accept C V st raw) = insert processed (fetcher_seen st)))
   \<and> take (length (channel_configs st)) (channel_configs (accept_all C V raws st)) = channel_configs st
   \<and> fetcher_seen (accept_all C V raws st) =
       fetcher_seen st \<union> set (drop (length (channel_configs st)) (channel_configs (accept_all C V raws st)))"
proof (intro conjI impI)
  show "accept C V st raw = st" if "process_single_config C V (fetcher_seen st) raw = None"
    using that by (simp add: accept_def)
  show "\<exists>processed. process_single_config C V (fetcher_seen st) raw = Some processed
           \<and> channel_configs (accept C V st raw) = channel_configs st @ [processed]
           \<and> fetcher_seen (accept C V st raw) = insert processed (fetcher_seen st)"
    if changed: "fetcher_seen (accept C V st raw) \<noteq> fetcher_seen st"
  proof (cases rule: accept_cases [of C V st raw])
    case dropped
    with changed show ?thesis by simp
  next
    case (accepted c)
    then show ?thesis by simp
  qed
  obtain new where new: "channel_configs (accept_all C V raws st) = channel_configs st @ new"
    "fetcher_seen (accept_all C V raws st) = fetcher_seen st \<union> set new"
    using accept_all_adds [of C V raws st] by blast
  show "take (length (channel_configs st)) (channel_configs (accept_all C V raws st)) = channel_configs st"
    by (simp add: new(1))
  show "fetcher_seen (accept_all C V raws st) =
       fetcher_seen st \<union> set (drop (length (channel_configs st)) (channel_configs (accept_all C V raws st)))"
    by (simp add: new)
qed

theorem dropped_candidate_leaves_seen_configs_witness:
  "process_single_config three_protocols plain_validator (fetcher_seen one_seen) ''vless://a'' = None
   \<and> accept three_protocols plain_validator one_seen ''vless://a'' = one_seen
   \<and> fetcher_seen (accept three_protocols plain_validator one_seen ''ss://b'') \<noteq> fetcher_seen one_seen
   \<and> process_single_config three_protocols plain_validator (fetcher_seen one_seen) ''ss://b'' = Some ''ss://b''
   \<and> channel_configs (accept three_protocols plain_validator one_seen ''ss://b'') = [''vless://a'', ''ss://b'']"
proof -
  have dup: "process_single_config three_protocols plain_validator (fetcher_seen one_seen) ''vless://a'' = None"
    by (simp add: one_seen_def process_duplicate)
  have new: "process_single_config three_protocols plain_validator (fetcher_seen one_seen) ''ss://b'' = Some ''ss://b''"
    by (simp add: one_seen_def process_new)
  have same: "accept three_protocols plain_validator one_seen ''vless://a'' = one_seen"
    using dup
    by (rule dropped_candidate_leaves_seen_configs
          [of three_protocols plain_validator one_seen "''vless://a''" "[]",
           THEN conjunct1, rule_format])
  have changed: "fetcher_seen (accept three_protocols plain_validator one_seen ''ss://b'') \<noteq> fetcher_seen one_seen"
    using new by (simp add: accept_def one_seen_def)
  obtain processed where
    p: "process_single_config three_protocols plain_validator (fetcher_seen one_seen) ''ss://b'' = Some processed"
      "channel_configs (accept three_protocols plain_validator one_seen ''ss://b'') =
         channel_configs one_seen @ [processed]"
    using dropped_candidate_leaves_seen_configs
          [of three_protocols plain_validator one_seen "''ss://b''" "[]",
           THEN conjunct2, THEN conjunct1, rule_format, OF changed]
    by blast
  have "processed = ''ss://b''"
    using p(1) new by simp
  then have added: "channel_configs (accept three_protocols plain_validator one_seen ''ss://b'') =
      [''vless://a'', ''ss://b'']"
    using p(2) by (simp add: one_seen_def)
  show ?thesis
    using dup same changed new added by (intro conjI)
qed

text \<open>
  C6. A candidate that begins with \<open>hy2://\<close> is treated like the candidate that begins
  with \<open>hysteria2://\<close> and goes on in the same way. In fetch\_configs.py this rests on
  \<open>normalize_hysteria2_protocol\<close> rewriting the prefix, as \<open>normalizeAlias\<close> does:
  then \<open>process_single_config\<close> gives the same result for both, whatever the registry
  and the set of seen records, so both meet the same protocol entry and the same
  enablement check, the step of the channel loop is the same, and the record that reaches
  \<open>balance_protocols\<close> is the same and so is its bucket. In config.py both spellings
  give the protocol \<open>hysteria2://\<close> for the enablement check of
  \<open>fetch_from_channel\<close>, and both have the third place of \<open>priority\<close> in
  \<open>rank_and_filter\<close>.
\<close>

theorem hy2_is_treated_as_hysteria2:
  assumes "normalize_hysteria2_protocol V = (\<lambda>c. Some (normalizeAlias c))"
  shows "process_single_config C V S (''hy2://'' @ s) =
           process_single_config C V S (''hysteria2://'' @ s)
       \<and> accept C V st (''hy2://'' @ s) = accept C V st (''hysteria2://'' @ s)
       \<and> map_option (bucket_of (SUPPORTED_PROTOCOLS C)) (process_single_config C V S (''hy2://'' @ s)) =
           map_option (bucket_of (SUPPORTED_PROTOCOLS C))
             (process_single_config C V S (''hysteria2://'' @ s))
       \<and> protocol_of (''hy2://'' @ s) = protocol_of (''hysteria2://'' @ t)
       \<and> is_protocol_enabled C (protocol_of (''hy2://'' @ s)) =
           is_protocol_enabled C (protocol_of (''hysteria2://'' @ t))
       \<and> rank_of (''hy2://'' @ s) = rank_of (''hysteria2://'' @ t)"
proof -
  have same: "process_single_config C V S' (''hy2://'' @ s) =
      process_single_config C V S' (''hysteria2://'' @ s)" for S'
    by (simp only: process_hy2 [OF assms] process_hysteria2)
  have "accept C V st (''hy2://'' @ s) = accept C V st (''hysteria2://'' @ s)"
    unfolding accept_def same ..
  moreover have "protocol_of (''hy2://'' @ s) = protocol_of (''hysteria2://'' @ t)"
    by (simp only: protocol_of_hy2 protocol_of_hysteria2)
  moreover have "rank_of (''hy2://'' @ s) = rank_of (''hysteria2://'' @ t)"
    by (simp only: rank_of_hy2 rank_of_hysteria2)
  ultimately show ?thesis
    using same [of S] by simp
qed

theorem hy2_is_treated_as_hysteria2_witness:
  "process_single_config hysteria_protocols plain_validator {} ''hy2://user@host:443?x=1'' =
     Some ''hysteria2://user@host:443?x=1''
   \<and> process_single_config hysteria_protocols plain_validator {} ''hysteria2://user@host:443?x=1'' =
     Some ''hysteria2://user@host:443?x=1''
   \<and> rank_of ''hy2://user@host:443?x=1'' = rank_of ''hysteria2://user@host:443?x=1''"
proof -
  have norm: "normalize_hysteria2_protocol plain_validator = (\<lambda>c. Some (normalizeAlias c))"
    by (simp add: plain_validator_def)
  have long: "process_single_config hysteria_protocols plain_validator {}
      (''hysteria2://'' @ ''user@host:443?x=1'') = Some ''hysteria2://user@host:443?x=1''"
    by (simp add: process_single_config_def strip_def isspace_def hysteria_protocols_def
        plain_validator_def Let_def)
  note treated = hy2_is_treated_as_hysteria2 [OF norm, where C = hysteria_protocols and S = "{}"
      and s = "''user@host:443?x=1''" and st = nothing_seen and t = "''user@host:443?x=1''"]
  have short: "process_single_config hysteria_protocols plain_validator {}
      (''hy2://'' @ ''user@host:443?x=1'') = Some ''hysteria2://user@host:443?x=1''"
    using treated [THEN conjunct1] long by (rule trans)
  have rank: "rank_of (''hy2://'' @ ''user@host:443?x=1'') =
      rank_of (''hysteria2://'' @ ''user@host:443?x=1'')"
    using treated by (elim conjE)
  show ?thesis
    using short long rank by simp
qed

subsection \<open>Claim about the extractor\<close>

text \<open>
  C1 states that \<open>extract_configs_from_text\<close> returns the distinct whole matches of the
  pattern, each a scheme followed by \<open>://\<close> and a payload. \<open>re.findall\<close> returns the
  text of the group of the pattern, which encloses the scheme tokens only. For the text
  \<open>see vless://abc\<close> the function returns the one string \<open>vless\<close>, where the matched
  text is \<open>vless://abc\<close>. \<open>process_single_config\<close>, which receives each returned
  string, asks for a prefix such as \<open>vless://\<close>: it drops \<open>vless\<close> and would accept
  \<open>vless://abc\<close>, so that a run over pages with configs selects nothing.
\<close>

theorem extract_returns_scheme_tokens:
  "extract_configs_from_text plain_validator feed_world ''see vless://abc'' = [''vless'']
   \<and> whole_matches protocol_pattern ''see vless://abc'' = [''vless://abc'']
   \<and> process_single_config three_protocols plain_validator {} ''vless'' = None
   \<and> process_single_config three_protocols plain_validator {} ''vless://abc'' = Some ''vless://abc''
   \<and> response_text ok_page = ''vless://a''
   \<and> fetch_all_configs three_protocols plain_validator feed_world two_channels = Inr []"
proof -
  have "extract_configs_from_text plain_validator feed_world ''see vless://abc'' = [''vless'']"
    by (simp add: extract_configs_from_text_def plain_validator_def feed_world_def findall_def
        protocol_pattern_def lower_def lower_char_def payload_char_def isspace_def Let_def)
  moreover have "whole_matches protocol_pattern ''see vless://abc'' = [''vless://abc'']"
    by (simp add: whole_matches_def protocol_pattern_def lower_def lower_char_def
        payload_char_def isspace_def Let_def)
  moreover have "response_text ok_page = ''vless://a''"
    by (simp add: ok_page_def)
  ultimately show ?thesis
    using process_token process_whole fetch_all_example by (intro conjI)
qed

end
